theory Spec2Isabelle
  imports Main "HOL-Library.Multiset" "HOL-Library.Sublist"
begin

section \<open>Data model\<close>

text \<open>
  The card and progress records of the application types. Field names of \<open>CodeCard\<close>
  carry the suffix \<open>_c\<close> where they would clash with the fields of \<open>ExtractedBlock\<close>
  or with a constant of HOL (\<open>id\<close>). JavaScript numbers that hold counters and
  millisecond timestamps are integers here.
\<close>

datatype BlockType = Function | Type | Concept | Pattern | File

record CodeCard =
  id_c :: string
  type_c :: BlockType
  title :: string
  filePath_c :: string
  code_c :: string
  language_c :: string
  explanation :: string
  difficulty :: nat

record CardProgress =
  cardId :: string
  seen :: int
  mastered :: bool
  lastSeen :: int

type_synonym progress_map = "string \<rightharpoonup> CardProgress"

section \<open>Spaced repetition queue (src/lib/repetition.ts)\<close>

text \<open>
  \<open>progress[a.id].lastSeen\<close>, the sort key of both sorted tiers. The comparator is only
  ever called on cards that passed a filter requiring an entry, so the \<open>None\<close> branch
  is never reached from \<open>buildQueue\<close>.
\<close>

definition lastSeenOf :: "progress_map \<Rightarrow> CodeCard \<Rightarrow> int" where
  "lastSeenOf progress c = (case progress (id_c c) of None \<Rightarrow> 0 | Some p \<Rightarrow> lastSeen p)"

definition isUnseen :: "progress_map \<Rightarrow> CodeCard \<Rightarrow> bool" where
  "isUnseen progress c = (progress (id_c c) = None)"

definition isNeedsWork :: "progress_map \<Rightarrow> string option \<Rightarrow> CodeCard \<Rightarrow> bool" where
  "isNeedsWork progress justSwipedId c =
     (case progress (id_c c) of
        None \<Rightarrow> False
      | Some p \<Rightarrow> \<not> mastered p \<and> Some (id_c c) \<noteq> justSwipedId)"

definition isMasteredTier :: "progress_map \<Rightarrow> string option \<Rightarrow> CodeCard \<Rightarrow> bool" where
  "isMasteredTier progress justSwipedId c =
     (case progress (id_c c) of
        None \<Rightarrow> False
      | Some p \<Rightarrow> mastered p \<and> Some (id_c c) \<noteq> justSwipedId)"

text \<open>
  \<open>Array.prototype.sort\<close> is stable and the comparator \<open>a.lastSeen - b.lastSeen\<close> is a
  consistent ascending order on integer timestamps, so each sorted tier is the stable
  ascending sort by \<open>lastSeen\<close>. The function reads the clock into a constant that it
  never uses; the model leaves that out. The progress object is a map from card ids to
  entries; card ids are made by \<open>generateCards\<close> and start with \<open>gen-\<close>, so no id names
  an inherited property of the object.
\<close>

definition buildQueue :: "CodeCard list \<Rightarrow> progress_map \<Rightarrow> string option \<Rightarrow> CodeCard list" where
  "buildQueue cards progress justSwipedId =
     (let unseen = filter (isUnseen progress) cards;
          needsWork = sort_key (lastSeenOf progress)
                        (filter (isNeedsWork progress justSwipedId) cards);
          masteredT = sort_key (lastSeenOf progress)
                        (filter (isMasteredTier progress justSwipedId) cards)
      in unseen @ needsWork @ masteredT)"

text \<open>The tier of a card under a progress mapping: 0 unseen, 1 not mastered, 2 mastered.\<close>

definition tier :: "progress_map \<Rightarrow> CodeCard \<Rightarrow> nat" where
  "tier progress c =
     (case progress (id_c c) of None \<Rightarrow> 0 | Some p \<Rightarrow> if mastered p then 2 else 1)"

text \<open>The cards that the \<open>justSwipedId\<close> exclusion removes: seen cards with that id.\<close>

definition isExcluded :: "progress_map \<Rightarrow> string option \<Rightarrow> CodeCard \<Rightarrow> bool" where
  "isExcluded progress justSwipedId c =
     (progress (id_c c) \<noteq> None \<and> Some (id_c c) = justSwipedId)"

section \<open>Card deck state (the useCardDeck hook)\<close>

text \<open>
  The hook's three pieces of mutable state. Each swipe callback is modelled with the
  \<open>currentCard\<close> its closure captured and the value of \<open>Date.now()\<close> as arguments; it
  returns the new state together with the list of cards handed to
  \<open>setJustMasteredCard\<close> during the call (the mastery signal).
\<close>

record DeckState =
  progress :: progress_map
  justMasteredCard :: "CodeCard option"
  lastSwipedId :: "string option"

definition swipeRight :: "CodeCard option \<Rightarrow> int \<Rightarrow> DeckState \<Rightarrow> DeckState \<times> CodeCard list" where
  "swipeRight currentCard now st =
     (case currentCard of
        None \<Rightarrow> (st, [])
      | Some cc \<Rightarrow>
          (let i = id_c cc;
               prev = progress st;
               seen' = (case prev i of None \<Rightarrow> 0 | Some p \<Rightarrow> seen p) + 1;
               wasMastered = (case prev i of None \<Rightarrow> False | Some p \<Rightarrow> mastered p);
               isMastered = (seen' \<ge> 3);
               fire = (isMastered \<and> \<not> wasMastered);
               entry = \<lparr>cardId = i, seen = seen', mastered = isMastered, lastSeen = now\<rparr>
           in (st\<lparr>lastSwipedId := Some i,
                  justMasteredCard := (if fire then Some cc else justMasteredCard st),
                  progress := prev(i \<mapsto> entry)\<rparr>,
               if fire then [cc] else [])))"

definition swipeLeft :: "CodeCard option \<Rightarrow> int \<Rightarrow> DeckState \<Rightarrow> DeckState \<times> CodeCard list" where
  "swipeLeft currentCard now st =
     (case currentCard of
        None \<Rightarrow> (st, [])
      | Some cc \<Rightarrow>
          (let i = id_c cc
           in (st\<lparr>lastSwipedId := Some i,
                  progress := (progress st)(i \<mapsto>
                     \<lparr>cardId = i, seen = 0, mastered = False, lastSeen = now\<rparr>)\<rparr>,
               [])))"

definition swipeUp :: "CodeCard option \<Rightarrow> DeckState \<Rightarrow> DeckState \<times> CodeCard list" where
  "swipeUp currentCard st =
     (case currentCard of
        None \<Rightarrow> (st, [])
      | Some cc \<Rightarrow> (st\<lparr>lastSwipedId := Some (id_c cc)\<rparr>, []))"

text \<open>The state of a freshly mounted hook, and of one after \<open>restart\<close>.\<close>

definition initialDeck :: DeckState where
  "initialDeck = \<lparr>progress = Map.empty, justMasteredCard = None, lastSwipedId = None\<rparr>"

text \<open>
  One user action: which callback, on which captured card, at which clock value.
  \<open>runActions\<close> threads the state through a sequence of actions and collects the
  signals in order.
\<close>

datatype action = Confirm | Reject | Skip

fun applyAction :: "action \<Rightarrow> CodeCard option \<Rightarrow> int \<Rightarrow> DeckState \<Rightarrow> DeckState \<times> CodeCard list" where
  "applyAction Confirm cur now st = swipeRight cur now st"
| "applyAction Reject cur now st = swipeLeft cur now st"
| "applyAction Skip cur now st = swipeUp cur st"

fun runActions :: "(action \<times> CodeCard option \<times> int) list \<Rightarrow> DeckState \<Rightarrow> DeckState \<times> CodeCard list" where
  "runActions [] st = (st, [])"
| "runActions ((a, cur, now) # rest) st =
     (let (st1, sig1) = applyAction a cur now st;
          (st2, sig2) = runActions rest st1
      in (st2, sig1 @ sig2))"

text \<open>The invariant of one entry of the progress mapping.\<close>

definition entryInv :: "CardProgress \<Rightarrow> bool" where
  "entryInv p = (mastered p \<longleftrightarrow> seen p \<ge> 3)"

text \<open>The fields of the entry of a card, with the defaults the reducer reads.\<close>

definition seenOf :: "DeckState \<Rightarrow> CodeCard \<Rightarrow> int" where
  "seenOf st c = (case progress st (id_c c) of None \<Rightarrow> 0 | Some p \<Rightarrow> seen p)"

definition masteredOf :: "DeckState \<Rightarrow> CodeCard \<Rightarrow> bool" where
  "masteredOf st c = (case progress st (id_c c) of None \<Rightarrow> False | Some p \<Rightarrow> mastered p)"

text \<open>
  A sequence of actions leaves a card alone when none of them is performed on a card
  with that id. \<open>signalsFor\<close> selects the mastery signals emitted for a card.
\<close>

definition leavesAlone :: "CodeCard \<Rightarrow> (action \<times> CodeCard option \<times> int) list \<Rightarrow> bool" where
  "leavesAlone c acts =
     list_all (\<lambda>(a, cur, now). case cur of None \<Rightarrow> True | Some d \<Rightarrow> id_c d \<noteq> id_c c) acts"

definition signalsFor :: "CodeCard \<Rightarrow> CodeCard list \<Rightarrow> CodeCard list" where
  "signalsFor c sigs = filter (\<lambda>d. id_c d = id_c c) sigs"

section \<open>Example data\<close>

text \<open>
  Three generated cards and a progress mapping in which the first is mastered, the
  second has been confirmed once and the third has never been reviewed.
\<close>

definition cardA :: CodeCard where
  "cardA = \<lparr>id_c = ''gen-0-add'', type_c = Function, title = ''add'', filePath_c = ''src/add.ts'',
     code_c = ''export function add(a,b) { return a+b }'', language_c = ''typescript'',
     explanation = ''Exported function in src.'', difficulty = 1\<rparr>"

definition cardB :: CodeCard where
  "cardB = cardA\<lparr>id_c := ''gen-1-sub'', title := ''sub''\<rparr>"

definition cardC :: CodeCard where
  "cardC = cardA\<lparr>id_c := ''gen-2-mul'', title := ''mul''\<rparr>"

definition exampleProgress :: progress_map where
  "exampleProgress =
     [''gen-0-add'' \<mapsto> \<lparr>cardId = ''gen-0-add'', seen = 3, mastered = True, lastSeen = 50\<rparr>,
      ''gen-1-sub'' \<mapsto> \<lparr>cardId = ''gen-1-sub'', seen = 1, mastered = False, lastSeen = 70\<rparr>]"

section \<open>Ranking of extracted blocks (rankBlocks)\<close>

text \<open>
  \<open>lineCount\<close> is always the length of a \<open>split\<close> result, a natural number.
  \<open>jsDoc\<close> is \<open>string | null\<close>.
\<close>

record ExtractedBlock =
  name :: string
  type_b :: BlockType
  code :: string
  filePath :: string
  language :: string
  jsDoc :: "string option"
  lineCount :: nat

text \<open>The string value of each member of the \<open>BlockType\<close> union.\<close>

fun typeStr :: "BlockType \<Rightarrow> string" where
  "typeStr Function = ''function''"
| "typeStr Type = ''type''"
| "typeStr Concept = ''concept''"
| "typeStr Pattern = ''pattern''"
| "typeStr File = ''file''"

text \<open>The deduplication key, the template string \<open>name:type\<close>.\<close>

definition blockKey :: "ExtractedBlock \<Rightarrow> string" where
  "blockKey b = name b @ '':'' @ typeStr (type_b b)"

text \<open>
  The \<open>filter\<close> callback closes over the mutable set \<open>seen\<close>; the set is threaded
  through the recursion here.
\<close>

fun uniqueFilter :: "string set \<Rightarrow> ExtractedBlock list \<Rightarrow> ExtractedBlock list" where
  "uniqueFilter seenKeys [] = []"
| "uniqueFilter seenKeys (b # bs) =
     (let key = blockKey b
      in if key \<in> seenKeys then uniqueFilter seenKeys bs
         else b # uniqueFilter (insert key seenKeys) bs)"

text \<open>
  JavaScript truthiness of a \<open>string | null\<close> value: \<open>null\<close> and the empty string are
  falsy. \<open>findJsDoc\<close> returns the empty string for a comment without text.
\<close>

definition truthy :: "string option \<Rightarrow> bool" where
  "truthy d = (case d of None \<Rightarrow> False | Some s \<Rightarrow> s \<noteq> [])"

definition score :: "ExtractedBlock \<Rightarrow> int" where
  "score b =
     (if lineCount b \<ge> 8 \<and> lineCount b \<le> 25 then 10
      else if lineCount b \<ge> 4 \<and> lineCount b \<le> 35 then 5 else 0)
     + (if truthy (jsDoc b) then 5 else 0)
     + (if type_b b = Function then 3 else 0)
     + (if type_b b = Type then 2 else 0)"

text \<open>
  The comparator \<open>b.score - a.score\<close> with the stable \<open>Array.prototype.sort\<close> is the
  stable sort in descending score, that is ascending in the negated score.
\<close>

definition rankBlocks :: "ExtractedBlock list \<Rightarrow> ExtractedBlock list" where
  "rankBlocks blocks =
     (let unique = uniqueFilter {} blocks;
          scored = map (\<lambda>b. (b, score b)) unique;
          sorted_desc = sort_key (\<lambda>(b, s). - s) scored
      in map fst sorted_desc)"

text \<open>The pair (name, kind) that the specification names as the identity of a block.\<close>

definition nameKind :: "ExtractedBlock \<Rightarrow> string \<times> BlockType" where
  "nameKind b = (name b, type_b b)"

definition blockAdd :: ExtractedBlock where
  "blockAdd = \<lparr>name = ''add'', type_b = Function,
     code = ''export function add(a,b) { return a+b }'', filePath = ''src/add.ts'',
     language = ''typescript'', jsDoc = None, lineCount = 7\<rparr>"

definition blockPoint :: ExtractedBlock where
  "blockPoint = \<lparr>name = ''Point'', type_b = Type,
     code = ''export interface Point { x: number }'', filePath = ''src/point.ts'',
     language = ''typescript'', jsDoc = Some ''A point.'', lineCount = 10\<rparr>"

definition blockAdd2 :: ExtractedBlock where
  "blockAdd2 = blockAdd\<lparr>filePath := ''src/other.ts'', lineCount := 20\<rparr>"

section \<open>String primitives of the host language\<close>

text \<open>
  Strings are lists of \<open>char\<close>. \<open>splitOn c s\<close> is \<open>s.split(c)\<close> for a separator of
  one character: it never returns the empty list. \<open>joinWith\<close> is \<open>Array.prototype.join\<close>
  and \<open>includes_s sub s\<close> is \<open>s.includes(sub)\<close>.
\<close>

fun splitOn :: "char \<Rightarrow> string \<Rightarrow> string list" where
  "splitOn c [] = [[]]"
| "splitOn c (x # xs) =
     (if x = c then [] # splitOn c xs
      else (case splitOn c xs of [] \<Rightarrow> [[x]] | w # ws \<Rightarrow> (x # w) # ws))"

fun joinWith :: "string \<Rightarrow> string list \<Rightarrow> string" where
  "joinWith sep [] = []"
| "joinWith sep [w] = w"
| "joinWith sep (w # v # ws) = w @ sep @ joinWith sep (v # ws)"

fun includes_s :: "string \<Rightarrow> string \<Rightarrow> bool" where
  "includes_s sub [] = (sub = [])"
| "includes_s sub (c # cs) = (prefix sub (c # cs) \<or> includes_s sub cs)"

text \<open>
  \<open>trim\<close> removes white space at both ends. The white space of the model is the ASCII
  part of what the host language strips (tab, line feed, vertical tab, form feed,
  carriage return, space).
\<close>

definition isWhiteSpace :: "char \<Rightarrow> bool" where
  "isWhiteSpace c = (c \<in> {CHR 0x09, CHR 0x0A, CHR 0x0B, CHR 0x0C, CHR 0x0D, CHR '' ''})"

definition trim :: "string \<Rightarrow> string" where
  "trim s = rev (dropWhile isWhiteSpace (rev (dropWhile isWhiteSpace s)))"

text \<open>Decimal rendering of a non-negative integer, as template strings do.\<close>

definition digitChar :: "nat \<Rightarrow> char" where
  "digitChar d = ''0123456789'' ! d"

fun showNat :: "nat \<Rightarrow> string" where
  "showNat n = (if n < 10 then [digitChar n] else showNat (n div 10) @ [digitChar (n mod 10)])"

declare showNat.simps [simp del]

section \<open>Card generation (src/lib/generate.ts)\<close>

text \<open>
  The nesting loop of \<open>estimateDifficulty\<close>: both \<open>if\<close> statements run on every
  character, then the running maximum is updated. Strings are not skipped.
\<close>

fun depthLoop :: "string \<Rightarrow> int \<Rightarrow> int \<Rightarrow> int" where
  "depthLoop [] depth maxDepth = maxDepth"
| "depthLoop (ch # rest) depth maxDepth =
     (let depth1 = (if ch = CHR ''{'' then depth + 1 else depth);
          depth2 = (if ch = CHR ''}'' then depth1 - 1 else depth1)
      in depthLoop rest depth2 (max maxDepth depth2))"

text \<open>
  The class \<open>\w\<close> of the regular expressions, and the global match of the pattern
  \<open>\bNAME\(\<close> built from the block name. For a name made of \<open>\w\<close> characters, as every
  name captured by the extractors is, the pattern is the literal text \<open>NAME(\<close> after a
  word boundary. \<open>callSites\<close> is the length of the array that \<open>code.match\<close> returns
  (0 for \<open>null\<close>): the scan tries each position from left to right, and after a match
  resumes behind it; \<open>prevWord\<close> tells whether the character before the position is a
  \<open>\w\<close> character.
\<close>

definition isWordChar :: "char \<Rightarrow> bool" where
  "isWordChar c =
     (let n = (of_char c :: nat)
      in (97 \<le> n \<and> n \<le> 122) \<or> (65 \<le> n \<and> n \<le> 90) \<or> (48 \<le> n \<and> n \<le> 57) \<or> n = 95)"

fun callSites :: "string \<Rightarrow> bool \<Rightarrow> string \<Rightarrow> nat" where
  "callSites nm prevWord [] = 0"
| "callSites nm prevWord (c # cs) =
     (if prevWord \<noteq> isWordChar c \<and> prefix (nm @ ''('') (c # cs)
      then 1 + callSites nm False (drop (length nm) cs)
      else callSites nm (isWordChar c) cs)"

definition complexity :: "ExtractedBlock \<Rightarrow> nat" where
  "complexity block =
     (let c1 = (if lineCount block > 20 then 2 else if lineCount block > 10 then 1 else 0);
          maxDepth = depthLoop (code block) 0 0;
          c2 = (if maxDepth > 4 then 2 else if maxDepth > 2 then 1 else 0);
          c3 = (if includes_s ''<'' (code block) \<and> includes_s ''>'' (code block) then 1 else 0);
          c4 = (if includes_s ''async'' (code block) \<or> includes_s ''await'' (code block) then 1 else 0);
          c5 = (if type_b block = Function \<and> callSites (name block) False (code block) > 1
                then 2 else 0)
      in c1 + c2 + c3 + c4 + c5)"

definition estimateDifficulty :: "ExtractedBlock \<Rightarrow> nat" where
  "estimateDifficulty block =
     (if complexity block \<ge> 4 then 3 else if complexity block \<ge> 2 then 2 else 1)"

text \<open>The em dash of two of the templates, as its three bytes in UTF-8.\<close>

definition emDash :: string where
  "emDash = [CHR 0xE2, CHR 0x80, CHR 0x94]"

definition generateExplanation :: "ExtractedBlock \<Rightarrow> string" where
  "generateExplanation block =
     (if truthy (jsDoc block) then (case jsDoc block of Some d \<Rightarrow> d | None \<Rightarrow> [])
      else
        (let dir = joinWith ''/'' (butlast (splitOn CHR ''/'' (filePath block)));
             dirHint = (if dir \<noteq> [] then '' in '' @ dir else [])
         in case type_b block of
              Function \<Rightarrow> ''Exported function'' @ dirHint
                 @ ''. Read the code to understand what '' @ name block
                 @ '' does and when you'' @ [CHR 0x27] @ ''d use it.''
            | Type \<Rightarrow> ''Type definition'' @ dirHint @ ''. Defines the shape of '' @ name block
                 @ '' '' @ emDash @ '' study the fields and their constraints.''
            | Concept \<Rightarrow> ''Class'' @ dirHint @ ''. Encapsulates '' @ name block
                 @ '' '' @ emDash @ '' look at the methods and how state is managed.''
            | Pattern \<Rightarrow> ''Pattern'' @ dirHint @ ''. A reusable approach to a recurring problem.''
            | File \<Rightarrow> ''Key file'' @ dirHint
                 @ ''. Read through to understand the module'' @ [CHR 0x27]
                 @ ''s responsibilities.''))"

definition MAX_CARDS :: nat where
  "MAX_CARDS = 50"

definition makeCard :: "nat \<Rightarrow> ExtractedBlock \<Rightarrow> CodeCard" where
  "makeCard i block =
     \<lparr>id_c = ''gen-'' @ showNat i @ ''-'' @ name block,
      type_c = type_b block,
      title = name block,
      filePath_c = filePath block,
      code_c = code block,
      language_c = language block,
      explanation = generateExplanation block,
      difficulty = estimateDifficulty block\<rparr>"

definition generateCards :: "ExtractedBlock list \<Rightarrow> nat \<Rightarrow> CodeCard list" where
  "generateCards blocks maxCards =
     map (\<lambda>(i, block). makeCard i block) (enumerate 0 (take maxCards blocks))"

section \<open>Extraction dispatcher (extractBlocks)\<close>

record FileContent =
  path :: string
  content :: string

text \<open>
  \<open>path.split(".").pop() ?? ""\<close> followed by the lookup in the extension table. The
  table is an object literal; its own keys are the nine extensions below.
\<close>

definition languageTable :: "(string \<times> string) list" where
  "languageTable =
     [(''ts'', ''typescript''), (''tsx'', ''typescript''), (''js'', ''javascript''),
      (''jsx'', ''javascript''), (''py'', ''python''), (''rs'', ''rust''), (''go'', ''go''),
      (''swift'', ''swift''), (''kt'', ''kotlin'')]"

definition popLast :: "string list \<Rightarrow> string option" where
  "popLast segs = (if segs = [] then None else Some (last segs))"

definition detectLanguage :: "string \<Rightarrow> string" where
  "detectLanguage p =
     (let ext = (case popLast (splitOn CHR ''.'' p) of None \<Rightarrow> [] | Some e \<Rightarrow> e)
      in case map_of languageTable ext of None \<Rightarrow> ''text'' | Some l \<Rightarrow> l)"

text \<open>
  The five per-language extractors are built on regular expressions and are parameters
  of the dispatcher; each maps the source text and the file (and, for the curly-brace
  extractor, the language) to the blocks it found.
\<close>

record Extractors =
  extractPython :: "string \<Rightarrow> FileContent \<Rightarrow> ExtractedBlock list"
  extractRust :: "string \<Rightarrow> FileContent \<Rightarrow> ExtractedBlock list"
  extractGo :: "string \<Rightarrow> FileContent \<Rightarrow> ExtractedBlock list"
  extractSwift :: "string \<Rightarrow> FileContent \<Rightarrow> ExtractedBlock list"
  extractTS :: "string \<Rightarrow> FileContent \<Rightarrow> string \<Rightarrow> ExtractedBlock list"

text \<open>The \<open>switch\<close> on the detected language.\<close>

definition perLanguage :: "Extractors \<Rightarrow> FileContent \<Rightarrow> ExtractedBlock list" where
  "perLanguage ex file =
     (let lang = detectLanguage (path file); src = content file
      in if lang = ''python'' then extractPython ex src file
         else if lang = ''rust'' then extractRust ex src file
         else if lang = ''go'' then extractGo ex src file
         else if lang = ''swift'' then extractSwift ex src file
         else extractTS ex src file lang)"

definition extractBlocks :: "Extractors \<Rightarrow> FileContent \<Rightarrow> ExtractedBlock list" where
  "extractBlocks ex file =
     (let lang = detectLanguage (path file);
          src = content file;
          blocks = perLanguage ex file
      in if length blocks = 0 \<and> length (splitOn CHR 0x0A src) \<le> 40
         then
           (let fileName = (case popLast (splitOn CHR ''/'' (path file)) of
                              None \<Rightarrow> path file | Some f \<Rightarrow> f)
            in blocks @ [\<lparr>name = fileName, type_b = File, code = trim src,
                           filePath = path file, language = lang, jsDoc = None,
                           lineCount = length (splitOn CHR 0x0A src)\<rparr>])
         else blocks)"

section \<open>Repository ingestion (ingestRepo and the GitHub client)\<close>

datatype EntryType = Blob | Tree

record TreeEntry =
  path_t :: string
  type_t :: EntryType
  size_t :: "int option"

record RepoMeta =
  name_m :: string
  fullName :: string
  description :: "string option"
  stars :: nat
  language_m :: "string option"
  defaultBranch :: string

definition CODE_EXTENSIONS :: "string set" where
  "CODE_EXTENSIONS = {''.ts'', ''.tsx'', ''.js'', ''.jsx'', ''.py'', ''.rs'', ''.go'', ''.swift'', ''.kt''}"

definition keepEntry :: "TreeEntry \<Rightarrow> bool" where
  "keepEntry entry =
     (let ext = ''.'' @ (case popLast (splitOn CHR ''.'' (path_t entry)) of
                          None \<Rightarrow> ''undefined'' | Some e \<Rightarrow> e)
      in if ext \<notin> CODE_EXTENSIONS then False
         else if includes_s ''__tests__'' (path_t entry) then False
         else if includes_s ''.test.'' (path_t entry) then False
         else if includes_s ''.spec.'' (path_t entry) then False
         else if includes_s ''node_modules'' (path_t entry) then False
         else if includes_s ''.d.ts'' (path_t entry) then False
         else if includes_s ''dist/'' (path_t entry) then False
         else if includes_s ''build/'' (path_t entry) then False
         else if (case size_t entry of None \<Rightarrow> False | Some n \<Rightarrow> n \<noteq> 0 \<and> n > 50000) then False
         else True)"

definition filterCodeFiles :: "TreeEntry list \<Rightarrow> TreeEntry list" where
  "filterCodeFiles tree = filter keepEntry tree"

text \<open>
  The network. \<open>parseRepoInput\<close> (two regular expressions) and the three requests are
  parameters: a request either fails with an error or returns its data, and the request
  for one file returns \<open>None\<close> for every failure that \<open>fetchFiles\<close> catches.
\<close>

datatype error = Error string

record GitHub =
  parseRepoInput :: "string \<Rightarrow> (string \<times> string) option"
  fetchRepo :: "string \<Rightarrow> string \<Rightarrow> error + RepoMeta"
  fetchTree :: "string \<Rightarrow> string \<Rightarrow> string \<Rightarrow> error + TreeEntry list"
  fetchContent :: "string \<Rightarrow> string \<Rightarrow> string \<Rightarrow> string option"

text \<open>
  \<open>fetchFiles\<close> requests the first \<open>maxFiles\<close> paths in batches of eight, awaits each
  batch, and appends the files that arrived, in request order.
\<close>

definition fetchOne :: "GitHub \<Rightarrow> string \<Rightarrow> string \<Rightarrow> string \<Rightarrow> FileContent option" where
  "fetchOne gh owner repo p =
     (case fetchContent gh owner repo p of
        None \<Rightarrow> None
      | Some c \<Rightarrow> Some \<lparr>path = p, content = c\<rparr>)"

function fetchBatches :: "GitHub \<Rightarrow> string \<Rightarrow> string \<Rightarrow> string list \<Rightarrow> FileContent list" where
  "fetchBatches gh owner repo selected =
     (if selected = [] then []
      else List.map_filter (fetchOne gh owner repo) (take 8 selected)
           @ fetchBatches gh owner repo (drop 8 selected))"
  by pat_completeness auto
termination
  by (relation "measure (\<lambda>(gh, owner, repo, selected). length selected)") auto

declare fetchBatches.simps [simp del]

definition fetchFiles :: "GitHub \<Rightarrow> string \<Rightarrow> string \<Rightarrow> string list \<Rightarrow> nat \<Rightarrow> FileContent list" where
  "fetchFiles gh owner repo paths maxFiles = fetchBatches gh owner repo (take maxFiles paths)"

record IngestResult =
  meta_r :: RepoMeta
  cards_r :: "CodeCard list"

datatype IngestStatus =
    Parsing
  | Fetching string
  | Extracting string
  | Generating string
  | Done IngestResult
  | ErrorStatus string

text \<open>
  \<open>ingestRepo\<close> returns the statuses passed to \<open>onStatus\<close>, in order, and either the
  error it throws or its result.
\<close>

definition ingestRepo :: "GitHub \<Rightarrow> Extractors \<Rightarrow> string \<Rightarrow> IngestStatus list \<times> (error + IngestResult)" where
  "ingestRepo gh ex input =
     (case parseRepoInput gh input of
        None \<Rightarrow> ([Parsing], Inl (Error ''Invalid repo format. Use owner/repo or a GitHub URL.''))
      | Some (owner, repo) \<Rightarrow>
          (let log1 = [Parsing, Fetching (''Loading '' @ owner @ ''/'' @ repo @ ''...'')]
           in case fetchRepo gh owner repo of
                Inl e \<Rightarrow> (log1, Inl e)
              | Inr m \<Rightarrow>
                  (let log2 = log1 @ [Fetching ''Scanning file tree...'']
                   in case fetchTree gh owner repo (defaultBranch m) of
                        Inl e \<Rightarrow> (log2, Inl e)
                      | Inr tree \<Rightarrow>
                          (let codeFiles = filterCodeFiles tree
                           in if length codeFiles = 0
                              then (log2, Inl (Error ''No supported code files found in this repo.''))
                              else
                                (let log3 = log2 @ [Fetching (''Reading ''
                                              @ showNat (min (length codeFiles) 40) @ '' files...'')];
                                     files = fetchFiles gh owner repo (map path_t codeFiles) 40;
                                     log4 = log3 @ [Extracting ''Finding interesting code...''];
                                     allBlocks = concat (map (extractBlocks ex) files);
                                     ranked = rankBlocks allBlocks
                                 in if length ranked = 0
                                    then (log4, Inl (Error (''Couldn'' @ [CHR 0x27]
                                            @ ''t extract any learnable code blocks.'')))
                                    else
                                      (let log5 = log4 @ [Generating (''Creating ''
                                                    @ showNat (min (length ranked) 50) @ '' cards...'')];
                                           cs = generateCards ranked MAX_CARDS;
                                           result = \<lparr>meta_r = m, cards_r = cs\<rparr>
                                       in (log5 @ [Done result], Inr result)))))))"

section \<open>Specification terms and example inputs for the dispatcher and the pipeline\<close>

text \<open>
  The text after the last slash of a path, and the number of line feeds of a text: the
  terms in which the fallback is specified.
\<close>

definition fileNameOf :: "string \<Rightarrow> string" where
  "fileNameOf p = rev (takeWhile (\<lambda>c. c \<noteq> CHR ''/'') (rev p))"

definition newlines :: "string \<Rightarrow> nat" where
  "newlines s = length (filter (\<lambda>c. c = CHR 0x0A) s)"

text \<open>
  Example inputs: extractors that find nothing, a short text file, a file of 41 lines,
  and a repository host that serves one tree.
\<close>

definition noExtractors :: Extractors where
  "noExtractors = \<lparr>extractPython = (\<lambda>src file. []), extractRust = (\<lambda>src file. []),
     extractGo = (\<lambda>src file. []), extractSwift = (\<lambda>src file. []),
     extractTS = (\<lambda>src file lang. [])\<rparr>"

definition notesFile :: FileContent where
  "notesFile = \<lparr>path = ''docs/notes.txt'', content = '' hello'' @ [CHR 0x0A] @ ''world '' @ [CHR 0x0A]\<rparr>"

definition longFile :: FileContent where
  "longFile = \<lparr>path = ''docs/long.txt'', content = replicate 40 (CHR 0x0A)\<rparr>"

definition exampleMeta :: RepoMeta where
  "exampleMeta = \<lparr>name_m = ''doomscroll'', fullName = ''octo/doomscroll'', description = None,
     stars = 7, language_m = Some ''TypeScript'', defaultBranch = ''main''\<rparr>"

definition exampleHub :: "TreeEntry list \<Rightarrow> GitHub" where
  "exampleHub tree =
     \<lparr>parseRepoInput = (\<lambda>input. if input = ''octo/doomscroll'' then Some (''octo'', ''doomscroll'') else None),
      fetchRepo = (\<lambda>owner repo. Inr exampleMeta),
      fetchTree = (\<lambda>owner repo branch. Inr tree),
      fetchContent = (\<lambda>owner repo p. Some ''const x = 1;'')\<rparr>"

definition offlineHub :: "TreeEntry list \<Rightarrow> GitHub" where
  "offlineHub tree = (exampleHub tree)\<lparr>fetchContent := (\<lambda>owner repo p. None)\<rparr>"

definition readmeEntry :: TreeEntry where
  "readmeEntry = \<lparr>path_t = ''README.md'', type_t = Blob, size_t = Some 120\<rparr>"

definition sourceEntry :: TreeEntry where
  "sourceEntry = \<lparr>path_t = ''src/x.ts'', type_t = Blob, size_t = Some 12\<rparr>"

definition sourceFile :: FileContent where
  "sourceFile = \<lparr>path = ''src/x.ts'', content = ''const x = 1;''\<rparr>"

section \<open>Specification terms for the difficulty estimate\<close>

text \<open>
  The terms in which the complexity score is specified. \<open>netBraces\<close> is the nesting
  depth after a text: opening minus closing braces. \<open>maxRunningDepth\<close> is the largest
  depth after any prefix of the code, the empty prefix included.
  \<open>callSitePositions\<close> lists the positions at which the text \<open>NAME(\<close> starts right
  after a character that is not an identifier character (or at the start of the code).
  \<open>specComplexity\<close> adds the five contributions and \<open>difficultyTier\<close> maps the sum to
  the tier.
\<close>

definition netBraces :: "string \<Rightarrow> int" where
  "netBraces s = int (length (filter (\<lambda>c. c = CHR ''{'') s))
               - int (length (filter (\<lambda>c. c = CHR ''}'') s))"

definition maxRunningDepth :: "string \<Rightarrow> int" where
  "maxRunningDepth s = Max ((\<lambda>k. netBraces (take k s)) ` {0..length s})"

definition callSitePositions :: "string \<Rightarrow> bool \<Rightarrow> string \<Rightarrow> nat list" where
  "callSitePositions nm prevWord s =
     filter (\<lambda>i. prefix (nm @ ''('') (drop i s)
                 \<and> \<not> (if i = 0 then prevWord else isWordChar (s ! (i - 1))))
            [0..<length s]"

definition specComplexity :: "ExtractedBlock \<Rightarrow> nat" where
  "specComplexity b =
     (if lineCount b > 20 then 2 else if lineCount b > 10 then 1 else 0)
     + (if maxRunningDepth (code b) > 4 then 2 else if maxRunningDepth (code b) > 2 then 1 else 0)
     + (if CHR ''<'' \<in> set (code b) \<and> CHR ''>'' \<in> set (code b) then 1 else 0)
     + (if sublist ''async'' (code b) \<or> sublist ''await'' (code b) then 1 else 0)
     + (if type_b b = Function \<and> length (callSitePositions (name b) False (code b)) > 1
        then 2 else 0)"

definition difficultyTier :: "nat \<Rightarrow> nat" where
  "difficultyTier c = (if c \<ge> 4 then 3 else if c \<ge> 2 then 2 else 1)"

text \<open>
  The score with the recursion term read literally: call sites counted inside the body
  of the function only, the body being the code from its first opening brace.
\<close>

definition bodyOf :: "string \<Rightarrow> string" where
  "bodyOf s = dropWhile (\<lambda>c. c \<noteq> CHR ''{'') s"

definition claimedComplexity :: "ExtractedBlock \<Rightarrow> nat" where
  "claimedComplexity b =
     (if lineCount b > 20 then 2 else if lineCount b > 10 then 1 else 0)
     + (if maxRunningDepth (code b) > 4 then 2 else if maxRunningDepth (code b) > 2 then 1 else 0)
     + (if CHR ''<'' \<in> set (code b) \<and> CHR ''>'' \<in> set (code b) then 1 else 0)
     + (if sublist ''async'' (code b) \<or> sublist ''await'' (code b) then 1 else 0)
     + (if type_b b = Function
           \<and> length (callSitePositions (name b) False (bodyOf (code b))) > 1
        then 2 else 0)"

text \<open>Example: a one-line recursive function.\<close>

definition blockFact :: ExtractedBlock where
  "blockFact = \<lparr>name = ''fact'', type_b = Function,
     code = ''function fact(n) { return n < 2 ? 1 : n * fact(n - 1) }'',
     filePath = ''src/fact.ts'', language = ''typescript'', jsDoc = None, lineCount = 1\<rparr>"

section \<open>Brace matcher (extractBraceBlock)\<close>

text \<open>
  \<open>slice s a b\<close> is \<open>s.slice(a, b)\<close> for indices that are not negative. The callers pass
  the index of a regular expression match as \<open>startIdx\<close>, a natural number.
\<close>

definition slice :: "string \<Rightarrow> nat \<Rightarrow> nat \<Rightarrow> string" where
  "slice s a b = take (b - a) (drop a s)"

text \<open>
  The inner \<open>while\<close> loop that skips a string: from index \<open>i\<close> it advances to the next
  occurrence of the quote, stepping over the character after a backslash, and returns
  the index at which it stops (the closing quote, or an index past the end).
\<close>

function skipString :: "string \<Rightarrow> char \<Rightarrow> nat \<Rightarrow> nat" where
  "skipString source quote i =
     (if i < length source \<and> source ! i \<noteq> quote
      then skipString source quote ((if source ! i = CHR 0x5C then i + 1 else i) + 1)
      else i)"
  by pat_completeness auto
termination
  by (relation "measure (\<lambda>(source, quote, i). length source - i)") auto

declare skipString.simps [simp del]

lemma skipString_ge: "i \<le> skipString source quote i"
proof (induction source quote i rule: skipString.induct)
  case (1 source quote i)
  show ?case
  proof (cases "i < length source \<and> source ! i \<noteq> quote")
    case True
    with "1.IH" have "(if source ! i = CHR 0x5C then i + 1 else i) + 1
                        \<le> skipString source quote ((if source ! i = CHR 0x5C then i + 1 else i) + 1)"
      by simp
    moreover have "skipString source quote i
             = skipString source quote ((if source ! i = CHR 0x5C then i + 1 else i) + 1)"
      using True by (subst skipString.simps) simp
    ultimately show ?thesis by (simp split: if_splits)
  next
    case False
    then show ?thesis by (subst skipString.simps) auto
  qed
qed

definition isQuote :: "char \<Rightarrow> bool" where
  "isQuote ch = (ch = CHR 0x22 \<or> ch = CHR 0x27 \<or> ch = CHR 0x60)"

text \<open>
  The outer loop, with the loop variables \<open>depth\<close>, \<open>foundOpen\<close> and \<open>i\<close> as arguments.
  Falling out of the loop returns \<open>null\<close>.
\<close>

function braceLoop :: "string \<Rightarrow> nat \<Rightarrow> int \<Rightarrow> bool \<Rightarrow> nat \<Rightarrow> string option" where
  "braceLoop source startIdx depth foundOpen i =
     (if i < length source then
        (let ch = source ! i;
             depth1 = (if ch = CHR ''{'' then depth + 1
                       else if ch = CHR ''}'' then depth - 1 else depth);
             foundOpen1 = (if ch = CHR ''{'' then True else foundOpen)
         in if ch = CHR ''}'' \<and> foundOpen1 \<and> depth1 = 0
            then Some (slice source startIdx (i + 1))
            else (let i1 = (if isQuote ch then skipString source ch (i + 1) else i)
                  in braceLoop source startIdx depth1 foundOpen1 (i1 + 1)))
      else None)"
  by pat_completeness auto
termination
proof (relation "measure (\<lambda>(source, startIdx, depth, foundOpen, i). length source - i)")
  show "wf (measure (\<lambda>(source, startIdx, depth, foundOpen, i). length source - i))"
    by simp
next
  fix source :: string and startIdx :: nat and depth :: int and foundOpen :: bool
    and i :: nat and ch depth1 foundOpen1 i1
  assume "i < length source" and "ch = source ! i"
    and "i1 = (if isQuote ch then skipString source ch (i + 1) else i)"
  then have "i \<le> i1" using skipString_ge[of "i + 1" source ch] by (simp split: if_splits)
  with \<open>i < length source\<close>
  show "((source, startIdx, depth1, foundOpen1, i1 + 1), (source, startIdx, depth, foundOpen, i))
          \<in> measure (\<lambda>(source, startIdx, depth, foundOpen, i). length source - i)"
    by simp
qed

declare braceLoop.simps [simp del]

definition extractBraceBlock :: "string \<Rightarrow> nat \<Rightarrow> string option" where
  "extractBraceBlock source startIdx = braceLoop source startIdx 0 False startIdx"

text \<open>
  The brace depth of a text counted outside string, character and template literals: a
  quote character opens a literal that extends to the next occurrence of the same quote
  that is not consumed by a backslash (a backslash consumes the character after it), or
  to the end of the text. \<open>afterLiteral q s\<close> is what follows the literal whose opening
  quote \<open>q\<close> stood just before \<open>s\<close>.
\<close>

fun afterLiteral :: "char \<Rightarrow> string \<Rightarrow> string" where
  "afterLiteral q [] = []"
| "afterLiteral q (c # cs) =
     (if c = q then cs
      else if c = CHR 0x5C then afterLiteral q (drop 1 cs)
      else afterLiteral q cs)"

lemma length_afterLiteral: "length (afterLiteral q s) \<le> length s"
proof (induction q s rule: afterLiteral.induct)
  case (1 q)
  then show ?case by simp
next
  case (2 q c cs)
  then show ?case by (auto intro: le_trans[where j = "length (drop 1 cs)"] simp del: drop_Suc_Cons)
qed

function netDepth :: "string \<Rightarrow> int" where
  "netDepth [] = 0"
| "netDepth (c # cs) =
     (if c = CHR ''{'' then netDepth cs + 1
      else if c = CHR ''}'' then netDepth cs - 1
      else if isQuote c then netDepth (afterLiteral c cs)
      else netDepth cs)"
  by pat_completeness auto
termination
proof (relation "measure length")
  show "wf (measure length)" by simp
next
  fix c :: char and cs :: string
  show "(afterLiteral c cs, c # cs) \<in> measure length"
    using length_afterLiteral[of c cs] by simp
qed simp_all

text \<open>
  A text is exactly balanced when its brace depth, counted outside literals, is zero at
  its end, is negative after none of its prefixes and is positive after one of them: the
  text holds at least one pair of braces, and each closing brace closes an opening brace
  that stands before it.
\<close>

definition exactlyBalanced :: "string \<Rightarrow> bool" where
  "exactlyBalanced s =
     (netDepth s = 0
      \<and> list_all (\<lambda>p. 0 \<le> netDepth p) (prefixes s)
      \<and> list_ex (\<lambda>p. 0 < netDepth p) (prefixes s))"

text \<open>
  \<open>noEarlyCloser s\<close>: outside literals, no closing brace of \<open>s\<close> stands before its first
  opening brace.
\<close>

function noEarlyCloser :: "string \<Rightarrow> bool" where
  "noEarlyCloser [] = True"
| "noEarlyCloser (c # cs) =
     (if c = CHR ''{'' then True
      else if c = CHR ''}'' then False
      else if isQuote c then noEarlyCloser (afterLiteral c cs)
      else noEarlyCloser cs)"
  by pat_completeness auto
termination
proof (relation "measure length")
  show "wf (measure length)" by simp
next
  fix c :: char and cs :: string
  show "(afterLiteral c cs, c # cs) \<in> measure length"
    using length_afterLiteral[of c cs] by simp
qed simp_all

text \<open>
  The loop of \<open>extractBraceBlock\<close> as it acts on the text that remains from the current
  index on. \<open>litLen q cs\<close> is the number of characters that belong to the literal opened
  by the quote \<open>q\<close> in front of \<open>cs\<close> (its content and its closing quote).
  \<open>scanFrom d f r\<close> runs the loop with depth \<open>d\<close> and flag \<open>f\<close> over \<open>r\<close> and gives the
  number of characters read up to and including the closing brace at which the loop
  returns, or \<open>None\<close> when the loop reaches the end of the text. Lemma
  \<open>braceLoop_scanFrom\<close> below shows that \<open>braceLoop\<close> computes exactly this.
\<close>

definition litLen :: "char \<Rightarrow> string \<Rightarrow> nat" where
  "litLen q cs = length cs - length (afterLiteral q cs)"

function scanFrom :: "int \<Rightarrow> bool \<Rightarrow> string \<Rightarrow> nat option" where
  "scanFrom d f [] = None"
| "scanFrom d f (c # cs) =
     (let d1 = (if c = CHR ''{'' then d + 1 else if c = CHR ''}'' then d - 1 else d);
          f1 = (if c = CHR ''{'' then True else f)
      in if c = CHR ''}'' \<and> f1 \<and> d1 = 0 then Some 1
         else if isQuote c
              then map_option (\<lambda>n. n + (1 + litLen c cs)) (scanFrom d1 f1 (afterLiteral c cs))
              else map_option Suc (scanFrom d1 f1 cs))"
  by pat_completeness auto
termination
proof (relation "measure (\<lambda>(d, f, s). length s)")
  show "wf (measure (\<lambda>(d, f, s). length s))" by simp
next
  fix d :: int and f :: bool and c :: char and cs :: string and d1 f1
  show "((d1, f1, afterLiteral c cs), (d, f, c # cs)) \<in> measure (\<lambda>(d, f, s). length s)"
    using length_afterLiteral[of c cs] by simp
qed simp_all

declare scanFrom.simps(2) [simp del]

section \<open>Properties of the review-state reducer\<close>

lemma swipeRight_entry:
  "progress (fst (swipeRight (Some c) t st)) (id_c c) =
     Some \<lparr>cardId = id_c c, seen = seenOf st c + 1, mastered = (seenOf st c + 1 \<ge> 3), lastSeen = t\<rparr>"
  by (simp add: swipeRight_def seenOf_def Let_def)

lemma swipeRight_signal:
  "snd (swipeRight (Some c) t st) = (if seenOf st c + 1 \<ge> 3 \<and> \<not> masteredOf st c then [c] else [])"
  by (simp add: swipeRight_def seenOf_def masteredOf_def Let_def)

lemma swipeRight_seenOf: "seenOf (fst (swipeRight (Some c) t st)) c = seenOf st c + 1"
  by (simp add: seenOf_def swipeRight_entry)

lemma swipeRight_masteredOf: "masteredOf (fst (swipeRight (Some c) t st)) c = (seenOf st c + 1 \<ge> 3)"
  by (simp add: masteredOf_def swipeRight_entry)

lemma swipeLeft_entry:
  "progress (fst (swipeLeft (Some c) t st)) (id_c c) =
     Some \<lparr>cardId = id_c c, seen = 0, mastered = False, lastSeen = t\<rparr>"
  by (simp add: swipeLeft_def Let_def)

lemma runActions_append:
  "runActions (xs @ ys) st =
     (fst (runActions ys (fst (runActions xs st))),
      snd (runActions xs st) @ snd (runActions ys (fst (runActions xs st))))"
  by (induction xs arbitrary: st) (auto simp: split_def Let_def)

lemma applyAction_other:
  assumes "case cur of None \<Rightarrow> True | Some d \<Rightarrow> id_c d \<noteq> id_c c"
  shows "progress (fst (applyAction a cur now st)) (id_c c) = progress st (id_c c)
       \<and> signalsFor c (snd (applyAction a cur now st)) = []"
  using assms
  by (cases a; cases cur)
     (auto simp: swipeRight_def swipeLeft_def swipeUp_def Let_def signalsFor_def)

lemma runActions_other:
  "leavesAlone c acts \<Longrightarrow>
     progress (fst (runActions acts st)) (id_c c) = progress st (id_c c)
     \<and> signalsFor c (snd (runActions acts st)) = []"
proof (induction acts arbitrary: st)
  case Nil
  then show ?case by (simp add: signalsFor_def)
next
  case (Cons x acts)
  obtain a cur now where x: "x = (a, cur, now)" by (cases x)
  from Cons.prems x have o: "case cur of None \<Rightarrow> True | Some d \<Rightarrow> id_c d \<noteq> id_c c"
    and rest: "leavesAlone c acts" by (simp_all add: leavesAlone_def)
  from applyAction_other[OF o, of a now st] Cons.IH[OF rest, of "fst (applyAction a cur now st)"]
  show ?case by (simp add: x split_def Let_def signalsFor_def)
qed

lemma other_seenOf:
  "leavesAlone c acts \<Longrightarrow> seenOf (fst (runActions acts st)) c = seenOf st c"
  "leavesAlone c acts \<Longrightarrow> masteredOf (fst (runActions acts st)) c = masteredOf st c"
  using runActions_other[of c acts st] by (simp_all add: seenOf_def masteredOf_def)

lemma confirm_after:
  assumes "leavesAlone c acts"
  shows "seenOf (fst (runActions (acts @ [(Confirm, Some c, t)]) st)) c = seenOf st c + 1"
    and "masteredOf (fst (runActions (acts @ [(Confirm, Some c, t)]) st)) c \<longleftrightarrow> seenOf st c + 1 \<ge> 3"
    and "signalsFor c (snd (runActions (acts @ [(Confirm, Some c, t)]) st))
           = (if seenOf st c + 1 \<ge> 3 \<and> \<not> masteredOf st c then [c] else [])"
proof -
  let ?s = "fst (runActions acts st)"
  have r: "runActions [(Confirm, Some c, t)] ?s
             = (fst (swipeRight (Some c) t ?s), snd (swipeRight (Some c) t ?s))"
    by (simp add: split_def)
  show "seenOf (fst (runActions (acts @ [(Confirm, Some c, t)]) st)) c = seenOf st c + 1"
    by (simp add: runActions_append r swipeRight_seenOf other_seenOf[OF assms])
  show "masteredOf (fst (runActions (acts @ [(Confirm, Some c, t)]) st)) c \<longleftrightarrow> seenOf st c + 1 \<ge> 3"
    by (simp add: runActions_append r swipeRight_masteredOf other_seenOf[OF assms])
  show "signalsFor c (snd (runActions (acts @ [(Confirm, Some c, t)]) st))
           = (if seenOf st c + 1 \<ge> 3 \<and> \<not> masteredOf st c then [c] else [])"
    using runActions_other[OF assms, of st]
    by (simp add: runActions_append r swipeRight_signal other_seenOf[OF assms] signalsFor_def)
qed

lemma reject_after:
  assumes "leavesAlone c acts"
  shows "seenOf (fst (runActions (acts @ [(Reject, Some c, t)]) st)) c = 0"
    and "\<not> masteredOf (fst (runActions (acts @ [(Reject, Some c, t)]) st)) c"
    and "signalsFor c (snd (runActions (acts @ [(Reject, Some c, t)]) st)) = []"
proof -
  let ?s = "fst (runActions acts st)"
  have r: "runActions [(Reject, Some c, t)] ?s
             = (fst (swipeLeft (Some c) t ?s), snd (swipeLeft (Some c) t ?s))"
    by (simp add: split_def)
  show "seenOf (fst (runActions (acts @ [(Reject, Some c, t)]) st)) c = 0"
    by (simp add: runActions_append r seenOf_def swipeLeft_entry)
  show "\<not> masteredOf (fst (runActions (acts @ [(Reject, Some c, t)]) st)) c"
    by (simp add: runActions_append r masteredOf_def swipeLeft_entry)
  show "signalsFor c (snd (runActions (acts @ [(Reject, Some c, t)]) st)) = []"
    using runActions_other[OF assms, of st]
    by (simp add: runActions_append r signalsFor_def swipeLeft_def Let_def)
qed

text \<open>
  Claim C1. Take a card that has no entry in the progress mapping, confirm it four
  times and then reject it once, at any clock values and with any actions on other
  cards in between. Every confirm raises the consecutive-confirm counter \<open>seen\<close> of the
  card by exactly one (1, 2, 3, 4); the card is not mastered after the first two
  confirms and is mastered after the third and the fourth; the mastery signal for the
  card is emitted by the third confirm and by no other step; the reject puts the counter
  back to 0 and \<open>mastered\<close> back to false. The last conjunct says that a confirm adds
  exactly one to the counter from every state.
\<close>

theorem C1_review_trace:
  assumes "progress st0 (id_c c) = None"
      and "leavesAlone c xs1" and "leavesAlone c xs2" and "leavesAlone c xs3"
      and "leavesAlone c xs4" and "leavesAlone c xs5"
  shows "(let r1 = runActions (xs1 @ [(Confirm, Some c, t1)]) st0;
              r2 = runActions (xs2 @ [(Confirm, Some c, t2)]) (fst r1);
              r3 = runActions (xs3 @ [(Confirm, Some c, t3)]) (fst r2);
              r4 = runActions (xs4 @ [(Confirm, Some c, t4)]) (fst r3);
              r5 = runActions (xs5 @ [(Reject, Some c, t5)]) (fst r4)
          in seenOf (fst r1) c = 1 \<and> seenOf (fst r2) c = 2
           \<and> seenOf (fst r3) c = 3 \<and> seenOf (fst r4) c = 4
           \<and> \<not> masteredOf (fst r1) c \<and> \<not> masteredOf (fst r2) c
           \<and> masteredOf (fst r3) c \<and> masteredOf (fst r4) c
           \<and> signalsFor c (snd r1) = [] \<and> signalsFor c (snd r2) = []
           \<and> signalsFor c (snd r3) = [c] \<and> signalsFor c (snd r4) = []
           \<and> seenOf (fst r5) c = 0 \<and> \<not> masteredOf (fst r5) c \<and> signalsFor c (snd r5) = [])
       \<and> (\<forall>st t. seenOf (fst (swipeRight (Some c) t st)) c = seenOf st c + 1)"
proof -
  have s0: "seenOf st0 c = 0" and m0: "\<not> masteredOf st0 c"
    using assms(1) by (simp_all add: seenOf_def masteredOf_def)
  define s1 where "s1 = fst (runActions (xs1 @ [(Confirm, Some c, t1)]) st0)"
  define s2 where "s2 = fst (runActions (xs2 @ [(Confirm, Some c, t2)]) s1)"
  define s3 where "s3 = fst (runActions (xs3 @ [(Confirm, Some c, t3)]) s2)"
  define s4 where "s4 = fst (runActions (xs4 @ [(Confirm, Some c, t4)]) s3)"
  define s5 where "s5 = fst (runActions (xs5 @ [(Reject, Some c, t5)]) s4)"
  have n1: "seenOf s1 c = 1" and m1: "\<not> masteredOf s1 c"
    unfolding s1_def by (simp_all add: confirm_after[OF assms(2)] s0)
  have n2: "seenOf s2 c = 2" and m2: "\<not> masteredOf s2 c"
    unfolding s2_def by (simp_all add: confirm_after[OF assms(3)] n1)
  have n3: "seenOf s3 c = 3" and m3: "masteredOf s3 c"
    unfolding s3_def by (simp_all add: confirm_after[OF assms(4)] n2)
  have n4: "seenOf s4 c = 4" and m4: "masteredOf s4 c"
    unfolding s4_def by (simp_all add: confirm_after[OF assms(5)] n3)
  have n5: "seenOf s5 c = 0" and m5: "\<not> masteredOf s5 c"
    unfolding s5_def by (simp_all add: reject_after[OF assms(6)])
  have g1: "signalsFor c (snd (runActions (xs1 @ [(Confirm, Some c, t1)]) st0)) = []"
    by (simp add: confirm_after[OF assms(2)] s0)
  have g2: "signalsFor c (snd (runActions (xs2 @ [(Confirm, Some c, t2)]) s1)) = []"
    by (simp add: confirm_after[OF assms(3)] n1)
  have g3: "signalsFor c (snd (runActions (xs3 @ [(Confirm, Some c, t3)]) s2)) = [c]"
    by (simp add: confirm_after[OF assms(4)] n2 m2)
  have g4: "signalsFor c (snd (runActions (xs4 @ [(Confirm, Some c, t4)]) s3)) = []"
    by (simp add: confirm_after[OF assms(5)] n3 m3)
  have g5: "signalsFor c (snd (runActions (xs5 @ [(Reject, Some c, t5)]) s4)) = []"
    by (simp add: reject_after[OF assms(6)])
  have all: "\<forall>st t. seenOf (fst (swipeRight (Some c) t st)) c = seenOf st c + 1"
    by (simp add: swipeRight_seenOf)
  show ?thesis
    unfolding Let_def
    using n1 n2 n3 n4 n5 m1 m2 m3 m4 m5 g1 g2 g3 g4 g5 all
    unfolding s1_def s2_def s3_def s4_def s5_def
    by blast
qed

theorem C1_review_trace_witness:
  "progress initialDeck (id_c cardA) = None
   \<and> leavesAlone cardA [] \<and> leavesAlone cardA [(Confirm, Some cardB, 15)]
   \<and> signalsFor cardA (snd (runActions [(Confirm, Some cardB, 25), (Confirm, Some cardA, 30)]
        (fst (runActions [(Confirm, Some cardB, 15), (Confirm, Some cardA, 20)]
          (fst (runActions [(Confirm, Some cardA, 10)] initialDeck)))))) = [cardA]"
proof -
  have a: "progress initialDeck (id_c cardA) = None" by (simp add: initialDeck_def)
  have b: "leavesAlone cardA []" by (simp add: leavesAlone_def)
  have c: "leavesAlone cardA [(Confirm, Some cardB, t)]" for t
    by (simp add: leavesAlone_def cardA_def cardB_def)
  from C1_review_trace[OF a b c[of 15] c[of 25] b b, of 10 20 30 40 50]
  have "signalsFor cardA (snd (runActions ([(Confirm, Some cardB, 25)] @ [(Confirm, Some cardA, 30)])
        (fst (runActions ([(Confirm, Some cardB, 15)] @ [(Confirm, Some cardA, 20)])
          (fst (runActions ([] @ [(Confirm, Some cardA, 10)]) initialDeck)))))) = [cardA]"
    unfolding Let_def by blast
  then show ?thesis using a b c[of 15] by simp
qed

lemma applyAction_inv:
  assumes "\<forall>k p. progress st k = Some p \<longrightarrow> entryInv p"
      and "applyAction a cur now st = (st', g)"
  shows "\<forall>k p. progress st' k = Some p \<longrightarrow> entryInv p"
  using assms
  by (cases a; cases cur)
     (auto simp: swipeRight_def swipeLeft_def swipeUp_def Let_def entryInv_def split: if_splits option.splits)

lemma runActions_inv:
  "\<forall>k p. progress st k = Some p \<longrightarrow> entryInv p \<Longrightarrow> runActions acts st = (st', g)
   \<Longrightarrow> \<forall>k p. progress st' k = Some p \<longrightarrow> entryInv p"
proof (induction acts arbitrary: st g)
  case Nil
  then show ?case by simp
next
  case (Cons x acts)
  obtain a cur now where x: "x = (a, cur, now)" by (cases x)
  obtain st1 g1 where s1: "applyAction a cur now st = (st1, g1)" by (cases "applyAction a cur now st")
  obtain st2 g2 where s2: "runActions acts st1 = (st2, g2)" by (cases "runActions acts st1")
  from Cons.prems(2) x s1 s2 have "st' = st2" by simp
  moreover have "\<forall>k p. progress st1 k = Some p \<longrightarrow> entryInv p"
    using applyAction_inv[OF Cons.prems(1) s1] .
  ultimately show ?case using Cons.IH s2 by blast
qed

text \<open>
  Claim C3. In every deck state reached from the initial state (empty progress mapping)
  by any sequence of confirm, reject and skip actions, on any cards and at any clock
  values, every entry of the progress mapping has \<open>mastered\<close> true if and only if
  its counter \<open>seen\<close> is at least 3.
\<close>

theorem C3_invariant:
  assumes "runActions acts initialDeck = (st, sigs)" and "progress st k = Some p"
  shows "mastered p \<longleftrightarrow> seen p \<ge> 3"
proof -
  have "\<forall>k p. progress initialDeck k = Some p \<longrightarrow> entryInv p" by (simp add: initialDeck_def)
  from runActions_inv[OF this assms(1)] assms(2) show ?thesis by (simp add: entryInv_def)
qed

theorem C3_invariant_witness:
  "runActions [(Confirm, Some cardA, 10), (Confirm, Some cardA, 20), (Confirm, Some cardA, 30)] initialDeck
     = (\<lparr>progress = [''gen-0-add'' \<mapsto> \<lparr>cardId = ''gen-0-add'', seen = 3, mastered = True, lastSeen = 30\<rparr>],
         justMasteredCard = Some cardA, lastSwipedId = Some ''gen-0-add''\<rparr>, [cardA])
   \<and> (mastered \<lparr>cardId = ''gen-0-add'', seen = 3, mastered = True, lastSeen = 30\<rparr>
        \<longleftrightarrow> seen \<lparr>cardId = ''gen-0-add'', seen = 3, mastered = True, lastSeen = 30\<rparr> \<ge> 3)"
proof -
  have r: "runActions [(Confirm, Some cardA, 10), (Confirm, Some cardA, 20), (Confirm, Some cardA, 30)] initialDeck
     = (\<lparr>progress = [''gen-0-add'' \<mapsto> \<lparr>cardId = ''gen-0-add'', seen = 3, mastered = True, lastSeen = 30\<rparr>],
         justMasteredCard = Some cardA, lastSwipedId = Some ''gen-0-add''\<rparr>, [cardA])"
    by (simp add: swipeRight_def initialDeck_def cardA_def Let_def)
  have p: "progress \<lparr>progress = [''gen-0-add'' \<mapsto> \<lparr>cardId = ''gen-0-add'', seen = 3, mastered = True, lastSeen = 30\<rparr>],
         justMasteredCard = Some cardA, lastSwipedId = Some ''gen-0-add''\<rparr> ''gen-0-add''
       = Some \<lparr>cardId = ''gen-0-add'', seen = 3, mastered = True, lastSeen = 30\<rparr>"
    by simp
  from C3_invariant[OF r p] r show ?thesis by blast
qed

text \<open>
  Claim C10. A confirm emits the mastery signal exactly when it takes the card's
  \<open>mastered\<close> flag from false to true; so the sequence confirm, confirm, confirm,
  reject, confirm, confirm, confirm on one card, from the initial state, emits the
  signal twice.
\<close>

theorem C10_refire:
  "snd (swipeRight (Some c) t st) =
     (if \<not> masteredOf st c \<and> masteredOf (fst (swipeRight (Some c) t st)) c then [c] else [])
   \<and> snd (runActions [(Confirm, Some c, t1), (Confirm, Some c, t2), (Confirm, Some c, t3),
                      (Reject, Some c, t4),
                      (Confirm, Some c, t5), (Confirm, Some c, t6), (Confirm, Some c, t7)] initialDeck)
       = [c, c]"
  by (simp add: swipeRight_signal swipeRight_masteredOf)
     (simp add: swipeRight_def swipeLeft_def initialDeck_def Let_def split_def)

section \<open>Properties of the queue builder\<close>

lemma tier_unseen: "isUnseen pr c \<longleftrightarrow> tier pr c = 0"
  by (auto simp: isUnseen_def tier_def split: option.splits)

lemma tier_needsWork: "isNeedsWork pr j c \<Longrightarrow> tier pr c = 1"
  by (auto simp: isNeedsWork_def tier_def split: option.splits)

lemma tier_mastered: "isMasteredTier pr j c \<Longrightarrow> tier pr c = 2"
  by (auto simp: isMasteredTier_def tier_def split: option.splits)

lemma sorted_map_const: "\<forall>x \<in> set xs. f x = (k::nat) \<Longrightarrow> sorted (map f xs)"
  by (induction xs) auto

lemma buildQueue_tiers_sorted: "sorted (map (tier pr) (buildQueue cards pr j))"
proof -
  let ?u = "filter (isUnseen pr) cards"
  let ?n = "sort_key (lastSeenOf pr) (filter (isNeedsWork pr j) cards)"
  let ?m = "sort_key (lastSeenOf pr) (filter (isMasteredTier pr j) cards)"
  have u: "\<forall>x \<in> set ?u. tier pr x = 0" by (simp add: tier_unseen)
  have n: "\<forall>x \<in> set ?n. tier pr x = 1" by (auto dest: tier_needsWork)
  have m: "\<forall>x \<in> set ?m. tier pr x = 2" by (auto dest: tier_mastered)
  have "sorted (map (tier pr) ?u)" "sorted (map (tier pr) ?n)" "sorted (map (tier pr) ?m)"
    by (rule sorted_map_const[OF u], rule sorted_map_const[OF n], rule sorted_map_const[OF m])
  moreover have "\<forall>x \<in> set ?u. \<forall>y \<in> set (?n @ ?m). tier pr x \<le> tier pr y" using u by simp
  moreover have "\<forall>x \<in> set ?n. \<forall>y \<in> set ?m. tier pr x \<le> tier pr y" using n m by simp
  ultimately have "sorted (map (tier pr) (?u @ ?n @ ?m))"
    by (auto simp: sorted_append)
  then show ?thesis by (simp add: buildQueue_def Let_def)
qed

lemma buildQueue_filter_tier:
  "filter (\<lambda>c. tier pr c = 0) (buildQueue cards pr j) = filter (isUnseen pr) cards"
  "filter (\<lambda>c. tier pr c = 1) (buildQueue cards pr j)
     = sort_key (lastSeenOf pr) (filter (isNeedsWork pr j) cards)"
  "filter (\<lambda>c. tier pr c = 2) (buildQueue cards pr j)
     = sort_key (lastSeenOf pr) (filter (isMasteredTier pr j) cards)"
proof -
  let ?u = "filter (isUnseen pr) cards"
  let ?n = "sort_key (lastSeenOf pr) (filter (isNeedsWork pr j) cards)"
  let ?m = "sort_key (lastSeenOf pr) (filter (isMasteredTier pr j) cards)"
  have u: "\<forall>x \<in> set ?u. tier pr x = 0" by (simp add: tier_unseen)
  have n: "\<forall>x \<in> set ?n. tier pr x = 1" by (auto dest: tier_needsWork)
  have m: "\<forall>x \<in> set ?m. tier pr x = 2" by (auto dest: tier_mastered)
  have f: "\<And>k k' xs. \<forall>x \<in> set xs. tier pr x = k \<Longrightarrow>
             filter (\<lambda>c. tier pr c = k') xs = (if k' = k then xs else [])"
    by (auto simp: filter_empty_conv filter_id_conv)
  have bq: "buildQueue cards pr j = ?u @ ?n @ ?m" by (simp add: buildQueue_def Let_def)
  show "filter (\<lambda>c. tier pr c = 0) (buildQueue cards pr j) = ?u"
    unfolding bq filter_append f[OF u] f[OF n] f[OF m] by simp
  show "filter (\<lambda>c. tier pr c = 1) (buildQueue cards pr j) = ?n"
    unfolding bq filter_append f[OF u] f[OF n] f[OF m] by simp
  show "filter (\<lambda>c. tier pr c = 2) (buildQueue cards pr j) = ?m"
    unfolding bq filter_append f[OF u] f[OF n] f[OF m] by simp
qed

lemma buildQueue_mset:
  "mset (buildQueue cards pr j) = mset (filter (\<lambda>c. \<not> isExcluded pr j c) cards)"
proof -
  have "mset (filter (isUnseen pr) cards) + mset (filter (isNeedsWork pr j) cards)
          + mset (filter (isMasteredTier pr j) cards)
        = mset (filter (\<lambda>c. \<not> isExcluded pr j c) cards)"
    by (induction cards)
       (auto simp: isUnseen_def isNeedsWork_def isMasteredTier_def isExcluded_def split: option.splits)
  then show ?thesis by (simp add: buildQueue_def Let_def ac_simps)
qed

lemma excluded_at_most_one:
  "distinct (map id_c cards) \<Longrightarrow> length (filter (isExcluded pr j) cards) \<le> 1"
proof (induction cards)
  case Nil
  then show ?case by simp
next
  case (Cons c cs)
  show ?case
  proof (cases "isExcluded pr j c")
    case True
    have "\<not> isExcluded pr j d" if "d \<in> set cs" for d
    proof
      assume "isExcluded pr j d"
      with True have "id_c d = id_c c" by (auto simp: isExcluded_def)
      moreover have "id_c c \<notin> id_c ` set cs" using Cons.prems by simp
      ultimately show False using that by (metis imageI)
    qed
    then have "\<forall>d \<in> set cs. \<not> isExcluded pr j d" by blast
    then have "filter (isExcluded pr j) cs = []" by (simp add: filter_empty_conv)
    with True show ?thesis by simp
  next
    case False
    with Cons show ?thesis by simp
  qed
qed

lemma buildQueue_length:
  "length (buildQueue cards pr j) + length (filter (isExcluded pr j) cards) = length cards"
proof -
  have "length (buildQueue cards pr j) = length (filter (\<lambda>c. \<not> isExcluded pr j c) cards)"
    using buildQueue_mset[of cards pr j] by (metis size_mset)
  then show ?thesis using sum_length_filter_compl[of "isExcluded pr j" cards] by simp
qed

text \<open>
  Claim C2. The queue is a permutation of the input cards without the excluded ones
  (cards that have an entry and whose id is \<open>justSwipedId\<close>): no card is duplicated,
  and when ids are unique at most one card is missing. Tiers appear in the order unseen,
  not mastered, mastered; the unseen cards keep their input order; the not-mastered tier
  and the mastered tier are each ascending in \<open>lastSeen\<close>.
\<close>

theorem C2_buildQueue_postcondition:
  "mset (buildQueue cards pr j) = mset (filter (\<lambda>c. \<not> isExcluded pr j c) cards)
   \<and> (distinct cards \<longrightarrow> distinct (buildQueue cards pr j))
   \<and> (distinct (map id_c cards) \<longrightarrow> length cards \<le> length (buildQueue cards pr j) + 1)
   \<and> sorted (map (tier pr) (buildQueue cards pr j))
   \<and> filter (\<lambda>c. tier pr c = 0) (buildQueue cards pr j) = filter (\<lambda>c. tier pr c = 0) cards
   \<and> sorted (map (lastSeenOf pr) (filter (\<lambda>c. tier pr c = 1) (buildQueue cards pr j)))
   \<and> sorted (map (lastSeenOf pr) (filter (\<lambda>c. tier pr c = 2) (buildQueue cards pr j)))"
proof -
  have d: "distinct cards \<longrightarrow> distinct (buildQueue cards pr j)"
  proof
    assume "distinct cards"
    then have "distinct (filter (\<lambda>c. \<not> isExcluded pr j c) cards)" by simp
    then show "distinct (buildQueue cards pr j)"
      using buildQueue_mset[of cards pr j] by (metis mset_eq_imp_distinct_iff)
  qed
  have l: "distinct (map id_c cards) \<longrightarrow> length cards \<le> length (buildQueue cards pr j) + 1"
    using excluded_at_most_one[of cards pr j] buildQueue_length[of cards pr j] by auto
  have u: "filter (isUnseen pr) cards = filter (\<lambda>c. tier pr c = 0) cards"
    by (rule filter_cong) (simp_all add: tier_unseen)
  have t0: "filter (\<lambda>c. tier pr c = 0) (buildQueue cards pr j) = filter (\<lambda>c. tier pr c = 0) cards"
    using buildQueue_filter_tier(1)[of pr cards j] u by simp
  have t1: "sorted (map (lastSeenOf pr) (filter (\<lambda>c. tier pr c = 1) (buildQueue cards pr j)))"
    unfolding buildQueue_filter_tier(2) by simp
  have t2: "sorted (map (lastSeenOf pr) (filter (\<lambda>c. tier pr c = 2) (buildQueue cards pr j)))"
    unfolding buildQueue_filter_tier(3) by simp
  show ?thesis
    using d l t0 t1 t2 buildQueue_mset[of cards pr j] buildQueue_tiers_sorted[of pr cards j]
    by blast
qed

theorem C2_buildQueue_postcondition_witness:
  "distinct [cardA, cardB, cardC] \<and> distinct (map id_c [cardA, cardB, cardC])
   \<and> buildQueue [cardA, cardB, cardC] exampleProgress (Some ''gen-1-sub'') = [cardC, cardA]
   \<and> length [cardA, cardB, cardC] \<le> length (buildQueue [cardA, cardB, cardC] exampleProgress (Some ''gen-1-sub'')) + 1"
  using C2_buildQueue_postcondition[of "[cardA, cardB, cardC]" exampleProgress "Some ''gen-1-sub''"]
  by (simp add: buildQueue_def isUnseen_def isNeedsWork_def isMasteredTier_def cardA_def cardB_def cardC_def exampleProgress_def)

text \<open>
  Claim C9. The queue starts with all unseen cards of the input, in input order,
  whatever \<open>justSwipedId\<close> is; a card of the input that is missing from the queue has
  an entry in the mapping and its id is \<open>justSwipedId\<close>; when \<open>justSwipedId\<close> names a
  card without an entry, the queue is the one built without any exclusion; and every
  input card without an entry is in the queue.
\<close>

theorem C9_unseen_never_excluded:
  "take (length (filter (isUnseen pr) cards)) (buildQueue cards pr jo) = filter (isUnseen pr) cards
   \<and> (\<forall>c \<in> set cards. c \<notin> set (buildQueue cards pr jo) \<longrightarrow>
         pr (id_c c) \<noteq> None \<and> jo = Some (id_c c))
   \<and> (pr j = None \<longrightarrow> buildQueue cards pr (Some j) = buildQueue cards pr None)
   \<and> (\<forall>c \<in> set cards. pr (id_c c) = None \<longrightarrow> c \<in> set (buildQueue cards pr jo))"
proof -
  have a: "take (length (filter (isUnseen pr) cards)) (buildQueue cards pr jo)
             = filter (isUnseen pr) cards"
    by (simp add: buildQueue_def Let_def)
  have "set (buildQueue cards pr jo) = {c \<in> set cards. \<not> isExcluded pr jo c}"
    using buildQueue_mset[of cards pr jo] by (metis set_filter set_mset_mset)
  then have b: "\<forall>c \<in> set cards. c \<notin> set (buildQueue cards pr jo) \<longrightarrow>
         pr (id_c c) \<noteq> None \<and> jo = Some (id_c c)"
    by (auto simp: isExcluded_def)
  have c: "pr j = None \<longrightarrow> buildQueue cards pr (Some j) = buildQueue cards pr None"
  proof
    assume j: "pr j = None"
    have "isNeedsWork pr (Some j) = isNeedsWork pr None"
      using j by (auto simp: isNeedsWork_def fun_eq_iff split: option.splits)
    moreover have "isMasteredTier pr (Some j) = isMasteredTier pr None"
      using j by (auto simp: isMasteredTier_def fun_eq_iff split: option.splits)
    ultimately show "buildQueue cards pr (Some j) = buildQueue cards pr None"
      by (simp add: buildQueue_def)
  qed
  have d: "\<forall>c \<in> set cards. pr (id_c c) = None \<longrightarrow> c \<in> set (buildQueue cards pr jo)"
    using b by blast
  show ?thesis using a b c d by blast
qed

theorem C9_unseen_never_excluded_witness:
  "exampleProgress ''gen-2-mul'' = None
   \<and> cardC \<in> set [cardA, cardB, cardC]
   \<and> buildQueue [cardA, cardB, cardC] exampleProgress (Some ''gen-2-mul'') = [cardC, cardB, cardA]
   \<and> buildQueue [cardA, cardB, cardC] exampleProgress (Some ''gen-2-mul'')
       = buildQueue [cardA, cardB, cardC] exampleProgress None
   \<and> cardB \<notin> set (buildQueue [cardA, cardB, cardC] exampleProgress (Some ''gen-1-sub''))
   \<and> exampleProgress (id_c cardB) \<noteq> None"
  using C9_unseen_never_excluded[of exampleProgress "[cardA, cardB, cardC]" "Some ''gen-2-mul''" "''gen-2-mul''"]
        C9_unseen_never_excluded[of exampleProgress "[cardA, cardB, cardC]" "Some ''gen-1-sub''" "''gen-2-mul''"]
  by (simp add: buildQueue_def isUnseen_def isNeedsWork_def isMasteredTier_def cardA_def cardB_def cardC_def exampleProgress_def)

section \<open>Properties of the ranker\<close>

lemma typeStr_no_colon: "CHR '':'' \<notin> set (typeStr t)"
  by (cases t) simp_all

lemma typeStr_inj: "typeStr s = typeStr t \<Longrightarrow> s = t"
  by (cases s; cases t) simp_all

lemma takeWhile_until: "c \<notin> set s \<Longrightarrow> takeWhile (\<lambda>x. x \<noteq> c) (s @ c # r) = s"
  by (induction s) auto

lemma split_last_colon:
  assumes "xs @ CHR '':'' # s = ys @ CHR '':'' # t"
      and "CHR '':'' \<notin> set s" and "CHR '':'' \<notin> set t"
  shows "xs = ys \<and> s = t"
proof -
  have "rev s @ CHR '':'' # rev xs = rev t @ CHR '':'' # rev ys"
    using arg_cong[OF assms(1), of rev] by simp
  then have "takeWhile (\<lambda>c. c \<noteq> CHR '':'') (rev s @ CHR '':'' # rev xs)
           = takeWhile (\<lambda>c. c \<noteq> CHR '':'') (rev t @ CHR '':'' # rev ys)" by simp
  moreover have "takeWhile (\<lambda>c. c \<noteq> CHR '':'') (rev s @ CHR '':'' # rev xs) = rev s"
    using assms(2) by (simp add: takeWhile_until)
  moreover have "takeWhile (\<lambda>c. c \<noteq> CHR '':'') (rev t @ CHR '':'' # rev ys) = rev t"
    using assms(3) by (simp add: takeWhile_until)
  ultimately have "s = t" by simp
  with assms(1) show ?thesis by simp
qed

lemma blockKey_eq_iff: "blockKey a = blockKey b \<longleftrightarrow> nameKind a = nameKind b"
proof
  assume "blockKey a = blockKey b"
  then have "name a @ CHR '':'' # typeStr (type_b a) = name b @ CHR '':'' # typeStr (type_b b)"
    by (simp add: blockKey_def)
  from split_last_colon[OF this typeStr_no_colon typeStr_no_colon]
  show "nameKind a = nameKind b" by (auto simp: nameKind_def dest: typeStr_inj)
next
  assume "nameKind a = nameKind b"
  then show "blockKey a = blockKey b" by (simp add: nameKind_def blockKey_def)
qed

lemma uniqueFilter_subseq: "subseq (uniqueFilter S bs) bs"
  by (induction bs arbitrary: S) (auto simp: Let_def)

lemma uniqueFilter_keys: "set (map blockKey (uniqueFilter S bs)) = set (map blockKey bs) - S"
  by (induction bs arbitrary: S) (auto simp: Let_def)

lemma uniqueFilter_distinct: "distinct (map blockKey (uniqueFilter S bs))"
proof (induction bs arbitrary: S)
  case Nil
  then show ?case by simp
next
  case (Cons b bs)
  have "blockKey b \<notin> set (map blockKey (uniqueFilter (insert (blockKey b) S) bs))"
    unfolding uniqueFilter_keys by simp
  with Cons show ?case by (simp add: Let_def)
qed

lemma uniqueFilter_first:
  "u \<in> set (uniqueFilter S bs) \<Longrightarrow> find (\<lambda>x. blockKey x = blockKey u) bs = Some u"
proof (induction bs arbitrary: S)
  case Nil
  then show ?case by simp
next
  case (Cons b bs)
  show ?case
  proof (cases "blockKey b \<in> S")
    case True
    with Cons.prems have u: "u \<in> set (uniqueFilter S bs)" by (simp add: Let_def)
    then have "blockKey u \<in> set (map blockKey (uniqueFilter S bs))" by (metis imageI set_map)
    then have "blockKey u \<notin> S" unfolding uniqueFilter_keys by simp
    with True have "blockKey b \<noteq> blockKey u" by auto
    with Cons.IH[OF u] show ?thesis by simp
  next
    case False
    with Cons.prems have "u = b \<or> u \<in> set (uniqueFilter (insert (blockKey b) S) bs)"
      by (simp add: Let_def)
    then show ?thesis
    proof
      assume "u = b" then show ?thesis by simp
    next
      assume u: "u \<in> set (uniqueFilter (insert (blockKey b) S) bs)"
      then have "blockKey u \<in> set (map blockKey (uniqueFilter (insert (blockKey b) S) bs))"
        by (metis imageI set_map)
      then have "blockKey u \<noteq> blockKey b" unfolding uniqueFilter_keys by auto
      with Cons.IH[OF u] show ?thesis by simp
    qed
  qed
qed

lemma rankBlocks_alt: "rankBlocks blocks = sort_key (\<lambda>b. - score b) (uniqueFilter {} blocks)"
proof -
  have "map fst (sort_key (\<lambda>(b, s). - s) (map (\<lambda>b. (b, score b)) xs)) = sort_key (\<lambda>b. - score b) xs" for xs
  proof (induction xs)
    case Nil
    then show ?case by simp
  next
    case (Cons x xs)
    have ins: "map fst (insort_key (\<lambda>(b, s). - s) (x, score x) ys)
                 = insort_key (\<lambda>b. - score b) x (map fst ys)"
      if "\<forall>p \<in> set ys. snd p = score (fst p)" for ys
      using that by (induction ys) (auto simp: case_prod_beta)
    have "\<forall>p \<in> set (sort_key (\<lambda>(b, s). - s) (map (\<lambda>b. (b, score b)) xs)). snd p = score (fst p)"
      by auto
    from ins[OF this] Cons show ?case by simp
  qed
  then show ?thesis by (simp add: rankBlocks_def Let_def)
qed

lemma sorted_neg_rev: "sorted (map (\<lambda>b. - g b) xs) \<Longrightarrow> sorted (rev (map (g :: 'a \<Rightarrow> int) xs))"
  by (induction xs) (auto simp: sorted_append)

lemma uniqueFilter_set_subset: "set (uniqueFilter S bs) \<subseteq> set bs"
  by (induction bs arbitrary: S) (auto simp: Let_def)

lemma uniqueFilter_nameKind_distinct: "distinct (map nameKind (uniqueFilter S bs))"
proof -
  have d: "distinct (map blockKey (uniqueFilter S bs))" by (rule uniqueFilter_distinct)
  then have "distinct (uniqueFilter S bs)" by (simp add: distinct_map)
  moreover have "inj_on nameKind (set (uniqueFilter S bs))"
  proof (rule inj_onI)
    fix a b assume "a \<in> set (uniqueFilter S bs)" "b \<in> set (uniqueFilter S bs)" "nameKind a = nameKind b"
    then show "a = b" using d by (metis blockKey_eq_iff distinct_map inj_onD)
  qed
  ultimately show ?thesis by (simp add: distinct_map)
qed

lemma uniqueFilter_nameKind_set: "nameKind ` set (uniqueFilter {} bs) = nameKind ` set bs"
proof -
  have k: "blockKey ` set (uniqueFilter {} bs) = blockKey ` set bs"
    using uniqueFilter_keys[of "{}" bs] by simp
  show ?thesis
  proof (intro equalityI subsetI)
    fix p assume "p \<in> nameKind ` set (uniqueFilter {} bs)"
    then show "p \<in> nameKind ` set bs"
      using uniqueFilter_set_subset[of "{}" bs] by auto
  next
    fix p assume "p \<in> nameKind ` set bs"
    then obtain b where b: "b \<in> set bs" "p = nameKind b" by auto
    then have "blockKey b \<in> blockKey ` set (uniqueFilter {} bs)" using k by auto
    then obtain u where "u \<in> set (uniqueFilter {} bs)" "blockKey u = blockKey b" by auto
    then show "p \<in> nameKind ` set (uniqueFilter {} bs)"
      using b by (auto simp: blockKey_eq_iff intro: rev_image_eqI)
  qed
qed

text \<open>
  Claim C5. Deduplication keeps, for every pair (name, kind) of the input, exactly the
  first block with that pair and keeps the input order; the ranked list is a
  permutation of the deduplicated one, descending in score, with blocks of equal score
  in their order after deduplication; and the score is the sum of 10 for a line count
  in 8..25 (otherwise 5 for one in 4..35), 5 for a doc text that is present (not null
  and not empty), 3 for kind function and 2 for kind type. \<open>rankBlocks\<close> is a function
  of the block list alone, so equal inputs give equal outputs.
\<close>

theorem C5_rankBlocks:
  "subseq (uniqueFilter {} blocks) blocks
   \<and> distinct (map nameKind (uniqueFilter {} blocks))
   \<and> nameKind ` set (uniqueFilter {} blocks) = nameKind ` set blocks
   \<and> (\<forall>u \<in> set (uniqueFilter {} blocks).
          find (\<lambda>x. nameKind x = nameKind u) blocks = Some u)
   \<and> mset (rankBlocks blocks) = mset (uniqueFilter {} blocks)
   \<and> sorted (rev (map score (rankBlocks blocks)))
   \<and> (\<forall>k. filter (\<lambda>b. score b = k) (rankBlocks blocks)
             = filter (\<lambda>b. score b = k) (uniqueFilter {} blocks))
   \<and> (\<forall>b. score b =
          (if lineCount b \<in> {8..25} then 10 else if lineCount b \<in> {4..35} then 5 else 0)
          + (if jsDoc b \<noteq> None \<and> jsDoc b \<noteq> Some [] then 5 else 0)
          + (if type_b b = Function then 3 else 0)
          + (if type_b b = Type then 2 else 0))"
proof -
  let ?u = "uniqueFilter {} blocks"
  have first: "\<forall>u \<in> set ?u. find (\<lambda>x. nameKind x = nameKind u) blocks = Some u"
  proof
    fix u assume "u \<in> set ?u"
    from uniqueFilter_first[OF this]
    show "find (\<lambda>x. nameKind x = nameKind u) blocks = Some u"
      by (simp add: blockKey_eq_iff)
  qed
  have perm: "mset (rankBlocks blocks) = mset ?u" by (simp add: rankBlocks_alt)
  have "sorted (map (\<lambda>b. - score b) (rankBlocks blocks))"
    unfolding rankBlocks_alt by (rule sorted_sort_key)
  then have desc: "sorted (rev (map score (rankBlocks blocks)))" by (rule sorted_neg_rev)
  have stable: "\<forall>k. filter (\<lambda>b. score b = k) (rankBlocks blocks) = filter (\<lambda>b. score b = k) ?u"
  proof
    fix k
    show "filter (\<lambda>b. score b = k) (rankBlocks blocks) = filter (\<lambda>b. score b = k) ?u"
      using sort_key_stable[of "\<lambda>b. - score b" "- k" ?u] by (simp add: rankBlocks_alt)
  qed
  have sc: "\<forall>b. score b =
          (if lineCount b \<in> {8..25} then 10 else if lineCount b \<in> {4..35} then 5 else 0)
          + (if jsDoc b \<noteq> None \<and> jsDoc b \<noteq> Some [] then 5 else 0)
          + (if type_b b = Function then 3 else 0)
          + (if type_b b = Type then 2 else 0)"
    by (auto simp: score_def truthy_def split: option.splits)
  show ?thesis
    using uniqueFilter_subseq[of "{}" blocks] uniqueFilter_nameKind_distinct[of "{}" blocks]
      uniqueFilter_nameKind_set[of blocks] first perm desc stable sc
    by blast
qed

theorem C5_rankBlocks_witness:
  "blockAdd \<in> set (uniqueFilter {} [blockAdd, blockPoint, blockAdd2])
   \<and> find (\<lambda>x. nameKind x = nameKind blockAdd) [blockAdd, blockPoint, blockAdd2] = Some blockAdd
   \<and> rankBlocks [blockAdd, blockPoint, blockAdd2] = [blockPoint, blockAdd]
   \<and> map score (rankBlocks [blockAdd, blockPoint, blockAdd2]) = [17, 8]"
  using C5_rankBlocks[of "[blockAdd, blockPoint, blockAdd2]"]
  by (simp add: rankBlocks_def blockAdd_def blockPoint_def blockAdd2_def blockKey_def score_def
        truthy_def nameKind_def Let_def)

section \<open>Properties of the dispatcher\<close>

lemma splitOn_nonempty: "splitOn c s \<noteq> []"
  by (induction s) (auto split: list.splits)

lemma length_splitOn: "length (splitOn c s) = length (filter (\<lambda>x. x = c) s) + 1"
proof (induction s)
  case Nil
  then show ?case by simp
next
  case (Cons x xs)
  then show ?case using splitOn_nonempty[of c xs] by (auto split: list.splits)
qed

lemma last_splitOn: "last (splitOn c s) = rev (takeWhile (\<lambda>x. x \<noteq> c) (rev s))"
proof (induction s)
  case Nil
  then show ?case by simp
next
  case (Cons x xs)
  show ?case
  proof (cases "c \<in> set xs")
    case True
    then have tw: "takeWhile (\<lambda>x. x \<noteq> c) (rev xs @ [x]) = takeWhile (\<lambda>x. x \<noteq> c) (rev xs)"
      by (simp add: takeWhile_append1)
    have "length (splitOn c xs) \<ge> 2"
      using True unfolding length_splitOn
      by (metis (mono_tags, lifting) One_nat_def Suc_leI add_mono_thms_linordered_semiring(1)
          filter_empty_conv le_refl length_greater_0_conv one_add_one)
    then obtain w v ws where "splitOn c xs = w # v # ws"
      by (cases "splitOn c xs"; cases "tl (splitOn c xs)") auto
    then show ?thesis using Cons tw by (auto split: list.splits)
  next
    case False
    then have f: "filter (\<lambda>x. x = c) xs = []" by (auto simp: filter_empty_conv)
    then have "length (splitOn c xs) = 1" unfolding length_splitOn by simp
    then obtain w where w: "splitOn c xs = [w]"
      by (cases "splitOn c xs") auto
    with Cons have wx: "w = rev (takeWhile (\<lambda>x. x \<noteq> c) (rev xs))" by simp
    have all: "takeWhile (\<lambda>x. x \<noteq> c) (rev xs) = rev xs"
      using False by (auto simp: takeWhile_eq_all_conv)
    show ?thesis
    proof (cases "x = c")
      case True
      have "takeWhile (\<lambda>x. x \<noteq> c) (rev xs @ [c]) = rev xs"
        using \<open>c \<notin> set xs\<close> takeWhile_until[of c "rev xs" "[]"] by simp
      then show ?thesis using True w wx all by simp
    next
      case False
      have tw2: "takeWhile (\<lambda>x. x \<noteq> c) (rev (x # xs)) = rev (x # xs)"
        using False \<open>c \<notin> set xs\<close> by (auto simp: takeWhile_eq_all_conv)
      have "last (splitOn c (x # xs)) = x # xs" using False w wx all by simp
      then show ?thesis unfolding tw2 by simp
    qed
  qed
qed

text \<open>
  Claim C7. When the extractor of the file's language finds no block and the file has
  at most 40 lines (line feeds plus one), \<open>extractBlocks\<close> returns exactly one block: of
  kind \<open>file\<close>, named by the text after the last slash of the path, holding the trimmed
  content. When the extractor finds no block and the file has more than 40 lines, the
  result is empty. When the extractor finds blocks, they are returned unchanged.
\<close>

theorem C7_whole_file_fallback:
  "(perLanguage ex file = [] \<and> newlines (content file) + 1 \<le> 40 \<longrightarrow>
      extractBlocks ex file =
        [\<lparr>name = fileNameOf (path file), type_b = File, code = trim (content file),
          filePath = path file, language = detectLanguage (path file), jsDoc = None,
          lineCount = newlines (content file) + 1\<rparr>])
   \<and> (perLanguage ex file = [] \<and> newlines (content file) + 1 > 40 \<longrightarrow>
      extractBlocks ex file = [])
   \<and> (perLanguage ex file \<noteq> [] \<longrightarrow> extractBlocks ex file = perLanguage ex file)"
proof -
  have fn: "(case popLast (splitOn CHR ''/'' (path file)) of None \<Rightarrow> path file | Some f \<Rightarrow> f)
              = fileNameOf (path file)"
    by (simp add: popLast_def splitOn_nonempty last_splitOn fileNameOf_def)
  have ln: "length (splitOn CHR 0x0A (content file)) = newlines (content file) + 1"
    by (simp add: length_splitOn newlines_def)
  show ?thesis
    by (simp add: extractBlocks_def Let_def fn ln)
qed

theorem C7_whole_file_fallback_witness:
  "perLanguage noExtractors notesFile = [] \<and> newlines (content notesFile) + 1 \<le> 40
   \<and> extractBlocks noExtractors notesFile =
        [\<lparr>name = ''notes.txt'', type_b = File, code = ''hello'' @ [CHR 0x0A] @ ''world'',
          filePath = ''docs/notes.txt'', language = ''text'', jsDoc = None, lineCount = 3\<rparr>]
   \<and> perLanguage noExtractors longFile = [] \<and> newlines (content longFile) + 1 > 40
   \<and> extractBlocks noExtractors longFile = []"
proof -
  have a: "perLanguage noExtractors notesFile = []" by code_simp
  have b: "newlines (content notesFile) + 1 \<le> 40" by code_simp
  have c: "perLanguage noExtractors longFile = []" by code_simp
  have d: "newlines (content longFile) + 1 > 40" by code_simp
  have e: "fileNameOf (path notesFile) = ''notes.txt''" by code_simp
  have f: "trim (content notesFile) = ''hello'' @ [CHR 0x0A] @ ''world''" by code_simp
  have g: "newlines (content notesFile) + 1 = 3" by code_simp
  have h: "detectLanguage (path notesFile) = ''text''" by code_simp
  have i: "path notesFile = ''docs/notes.txt''" by code_simp
  show ?thesis
    using C7_whole_file_fallback[of noExtractors notesFile]
          C7_whole_file_fallback[of noExtractors longFile] a b c d e f g h i
    by simp
qed

section \<open>Properties of the ingestion pipeline\<close>

lemma uniqueFilter_Nil_iff: "uniqueFilter {} bs = [] \<longleftrightarrow> bs = []"
  by (cases bs) (simp_all add: Let_def)

lemma rankBlocks_Nil_iff: "rankBlocks bs = [] \<longleftrightarrow> bs = []"
proof -
  have "rankBlocks bs = [] \<longleftrightarrow> uniqueFilter {} bs = []"
    unfolding rankBlocks_alt by (metis length_0_conv length_sort)
  then show ?thesis by (simp add: uniqueFilter_Nil_iff)
qed

lemma generateCards_Nil_iff: "generateCards bs MAX_CARDS = [] \<longleftrightarrow> bs = []"
  by (cases bs) (simp_all add: generateCards_def MAX_CARDS_def)

text \<open>
  Claim C8. After a successful parse and successful requests for the metadata and the
  tree, \<open>ingestRepo\<close> throws the error for no supported files when the filter keeps no
  entry, and the error for no learnable blocks when ranking the blocks of all fetched
  files gives the empty list (which happens exactly when extraction gave no block).
  Whenever \<open>ingestRepo\<close> returns a result, its card list is not empty.
\<close>

theorem C8_pipeline_emptiness:
  "(parseRepoInput gh input = Some (owner, repo) \<and> fetchRepo gh owner repo = Inr m
      \<and> fetchTree gh owner repo (defaultBranch m) = Inr tree \<and> filterCodeFiles tree = []
      \<longrightarrow> snd (ingestRepo gh ex input)
            = Inl (Error ''No supported code files found in this repo.''))
   \<and> (parseRepoInput gh input = Some (owner, repo) \<and> fetchRepo gh owner repo = Inr m
      \<and> fetchTree gh owner repo (defaultBranch m) = Inr tree \<and> filterCodeFiles tree \<noteq> []
      \<and> rankBlocks (concat (map (extractBlocks ex)
            (fetchFiles gh owner repo (map path_t (filterCodeFiles tree)) 40))) = []
      \<longrightarrow> snd (ingestRepo gh ex input)
            = Inl (Error (''Couldn'' @ [CHR 0x27] @ ''t extract any learnable code blocks.'')))
   \<and> (rankBlocks bs = [] \<longleftrightarrow> bs = [])
   \<and> (snd (ingestRepo gh ex input) = Inr r \<longrightarrow> cards_r r \<noteq> [])"
proof -
  have a: "parseRepoInput gh input = Some (owner, repo) \<and> fetchRepo gh owner repo = Inr m
      \<and> fetchTree gh owner repo (defaultBranch m) = Inr tree \<and> filterCodeFiles tree = []
      \<longrightarrow> snd (ingestRepo gh ex input)
            = Inl (Error ''No supported code files found in this repo.'')"
    by (simp add: ingestRepo_def Let_def)
  have b: "parseRepoInput gh input = Some (owner, repo) \<and> fetchRepo gh owner repo = Inr m
      \<and> fetchTree gh owner repo (defaultBranch m) = Inr tree \<and> filterCodeFiles tree \<noteq> []
      \<and> rankBlocks (concat (map (extractBlocks ex)
            (fetchFiles gh owner repo (map path_t (filterCodeFiles tree)) 40))) = []
      \<longrightarrow> snd (ingestRepo gh ex input)
            = Inl (Error (''Couldn'' @ [CHR 0x27] @ ''t extract any learnable code blocks.''))"
    by (simp add: ingestRepo_def Let_def)
  have c: "snd (ingestRepo gh ex input) = Inr r \<longrightarrow> cards_r r \<noteq> []"
    by (auto simp: ingestRepo_def Let_def generateCards_Nil_iff
             split: option.splits sum.splits if_splits prod.splits)
  show ?thesis using a b c rankBlocks_Nil_iff[of bs] by blast
qed

theorem C8_pipeline_emptiness_witness:
  "filterCodeFiles [readmeEntry] = []
   \<and> snd (ingestRepo (exampleHub [readmeEntry]) noExtractors ''octo/doomscroll'')
       = Inl (Error ''No supported code files found in this repo.'')
   \<and> filterCodeFiles [readmeEntry, sourceEntry] = [sourceEntry]
   \<and> (\<exists>r. snd (ingestRepo (exampleHub [readmeEntry, sourceEntry]) noExtractors ''octo/doomscroll'') = Inr r
          \<and> cards_r r \<noteq> [])
   \<and> snd (ingestRepo (offlineHub [readmeEntry, sourceEntry]) noExtractors ''octo/doomscroll'')
       = Inl (Error (''Couldn'' @ [CHR 0x27] @ ''t extract any learnable code blocks.''))"
proof -
  let ?hub = "exampleHub [readmeEntry, sourceEntry]"
  let ?off = "offlineHub [readmeEntry, sourceEntry]"
  let ?res = "\<lparr>meta_r = exampleMeta,
      cards_r = generateCards (rankBlocks (extractBlocks noExtractors sourceFile)) MAX_CARDS\<rparr>"
  have p: "parseRepoInput (exampleHub t) ''octo/doomscroll'' = Some (''octo'', ''doomscroll'')" for t
    by (simp add: exampleHub_def)
  have f: "fetchRepo (exampleHub t) ''octo'' ''doomscroll'' = Inr exampleMeta" for t
    by (simp add: exampleHub_def)
  have t: "fetchTree (exampleHub t) ''octo'' ''doomscroll'' (defaultBranch exampleMeta) = Inr t" for t
    by (simp add: exampleHub_def)
  have e: "filterCodeFiles [readmeEntry] = []" by code_simp
  have e2: "filterCodeFiles [readmeEntry, sourceEntry] = [sourceEntry]" by code_simp
  have ff: "fetchFiles ?hub ''octo'' ''doomscroll'' [path_t sourceEntry] 40 = [sourceFile]"
    by code_simp
  have eb: "extractBlocks noExtractors sourceFile \<noteq> []" by code_simp
  have rk: "length (rankBlocks (extractBlocks noExtractors sourceFile)) \<noteq> 0"
    using eb by (simp add: rankBlocks_Nil_iff)
  have r: "snd (ingestRepo ?hub noExtractors ''octo/doomscroll'') = Inr ?res"
    using rk by (simp add: ingestRepo_def Let_def p f t e2 ff del: length_0_conv)
  have none: "snd (ingestRepo (exampleHub [readmeEntry]) noExtractors ''octo/doomscroll'')
       = Inl (Error ''No supported code files found in this repo.'')"
    by (rule mp[OF C8_pipeline_emptiness[THEN conjunct1]]) (intro conjI, rule p, rule f, rule t, rule e)
  have some: "cards_r ?res \<noteq> []"
    by (rule mp[OF C8_pipeline_emptiness[THEN conjunct2, THEN conjunct2, THEN conjunct2]])
       (rule r)
  have ex: "\<exists>r. snd (ingestRepo ?hub noExtractors ''octo/doomscroll'') = Inr r \<and> cards_r r \<noteq> []"
    by (rule exI[of _ ?res]) (rule conjI[OF r some])
  have po: "parseRepoInput ?off ''octo/doomscroll'' = Some (''octo'', ''doomscroll'')"
    by (simp add: offlineHub_def exampleHub_def)
  have fo: "fetchRepo ?off ''octo'' ''doomscroll'' = Inr exampleMeta"
    by (simp add: offlineHub_def exampleHub_def)
  have to: "fetchTree ?off ''octo'' ''doomscroll'' (defaultBranch exampleMeta)
              = Inr [readmeEntry, sourceEntry]"
    by (simp add: offlineHub_def exampleHub_def)
  have ne: "filterCodeFiles [readmeEntry, sourceEntry] \<noteq> []" by (simp add: e2)
  have ffo: "fetchFiles ?off ''octo'' ''doomscroll'' [path_t sourceEntry] 40 = []"
    by code_simp
  have rko: "rankBlocks (concat (map (extractBlocks noExtractors)
               (fetchFiles ?off ''octo'' ''doomscroll''
                  (map path_t (filterCodeFiles [readmeEntry, sourceEntry])) 40))) = []"
    by (simp add: e2 ffo rankBlocks_Nil_iff)
  have off: "snd (ingestRepo ?off noExtractors ''octo/doomscroll'')
       = Inl (Error (''Couldn'' @ [CHR 0x27] @ ''t extract any learnable code blocks.''))"
    by (rule mp[OF C8_pipeline_emptiness[THEN conjunct2, THEN conjunct1]])
       (intro conjI, rule po, rule fo, rule to, rule ne, rule rko)
  show ?thesis by (intro conjI, rule e, rule none, rule e2, rule ex, rule off)
qed

section \<open>Properties of the difficulty estimate\<close>

lemma netBraces_Cons:
  "netBraces (c # s) = (if c = CHR ''{'' then 1 else if c = CHR ''}'' then - 1 else 0) + netBraces s"
  by (simp add: netBraces_def)

lemma depthLoop_ge:
  "m \<le> depthLoop s d m \<and> (\<forall>k. 1 \<le> k \<and> k \<le> length s \<longrightarrow> d + netBraces (take k s) \<le> depthLoop s d m)"
proof (induction s arbitrary: d m)
  case Nil
  then show ?case by simp
next
  case (Cons c s)
  let ?d2 = "d + (if c = CHR ''{'' then 1 else if c = CHR ''}'' then - 1 else 0)"
  have step: "depthLoop (c # s) d m = depthLoop s ?d2 (max m ?d2)"
    by (simp add: Let_def)
  have ih1: "max m ?d2 \<le> depthLoop s ?d2 (max m ?d2)" using Cons.IH by blast
  have ih2: "\<And>j. 1 \<le> j \<Longrightarrow> j \<le> length s \<Longrightarrow> ?d2 + netBraces (take j s) \<le> depthLoop s ?d2 (max m ?d2)"
    using Cons.IH by blast
  have "d + netBraces (take k (c # s)) \<le> depthLoop (c # s) d m" if k: "1 \<le> k" "k \<le> length (c # s)" for k
  proof (cases k)
    case 0
    with k show ?thesis by simp
  next
    case (Suc j)
    have eq: "d + netBraces (take k (c # s)) = ?d2 + netBraces (take j s)"
      by (simp add: Suc netBraces_Cons)
    show ?thesis
    proof (cases "j = 0")
      case True
      then have "d + netBraces (take k (c # s)) = ?d2" using eq by (simp add: netBraces_def)
      with ih1 step show ?thesis by simp
    next
      case False
      then have "1 \<le> j" "j \<le> length s" using k Suc by simp_all
      from ih2[OF this] eq step show ?thesis by simp
    qed
  qed
  moreover have "m \<le> depthLoop (c # s) d m" using ih1 step by simp
  ultimately show ?case by blast
qed

lemma depthLoop_attained:
  "depthLoop s d m = m \<or> (\<exists>k. 1 \<le> k \<and> k \<le> length s \<and> depthLoop s d m = d + netBraces (take k s))"
proof (induction s arbitrary: d m)
  case Nil
  then show ?case by simp
next
  case (Cons c s)
  let ?d2 = "d + (if c = CHR ''{'' then 1 else if c = CHR ''}'' then - 1 else 0)"
  have step: "depthLoop (c # s) d m = depthLoop s ?d2 (max m ?d2)"
    by (simp add: Let_def)
  have d2: "?d2 = d + netBraces (take 1 (c # s))" by (simp add: netBraces_Cons) (simp add: netBraces_def)
  from Cons.IH[of ?d2 "max m ?d2"]
  consider (a) "depthLoop s ?d2 (max m ?d2) = max m ?d2"
    | (b) k where "1 \<le> k" "k \<le> length s" "depthLoop s ?d2 (max m ?d2) = ?d2 + netBraces (take k s)"
    by blast
  then show ?case
  proof cases
    case a
    show ?thesis
    proof (cases "m \<ge> ?d2")
      case True
      with a step show ?thesis by (simp add: max_def)
    next
      case False
      with a step have "depthLoop (c # s) d m = d + netBraces (take 1 (c # s))"
        using d2 by (simp add: max_def)
      then show ?thesis by (intro disjI2 exI[of _ 1]) simp
    qed
  next
    case b
    have "depthLoop (c # s) d m = d + netBraces (take (Suc k) (c # s))"
      using b(3) step by (simp add: netBraces_Cons)
    with b(1,2) show ?thesis by (intro disjI2 exI[of _ "Suc k"]) simp
  qed
qed

lemma depthLoop_max: "depthLoop s 0 0 = maxRunningDepth s"
proof -
  let ?f = "\<lambda>k. netBraces (take k s)"
  have fin: "finite (?f ` {0..length s})" by simp
  have ub: "\<forall>y \<in> ?f ` {0..length s}. y \<le> depthLoop s 0 0"
  proof
    fix y assume "y \<in> ?f ` {0..length s}"
    then obtain k where k: "k \<le> length s" "y = ?f k" by auto
    show "y \<le> depthLoop s 0 0"
    proof (cases "k = 0")
      case True
      then have "y = 0" using k by (simp add: netBraces_def)
      then show ?thesis using depthLoop_ge[of 0 s 0] by simp
    next
      case False
      then have "1 \<le> k" by simp
      then show ?thesis using depthLoop_ge[of 0 s 0] k by auto
    qed
  qed
  have mem: "depthLoop s 0 0 \<in> ?f ` {0..length s}"
  proof -
    from depthLoop_attained[of s 0 0]
    consider "depthLoop s 0 0 = 0" | k where "k \<le> length s" "depthLoop s 0 0 = ?f k"
      by auto
    then show ?thesis
    proof cases
      case 1
      then have "depthLoop s 0 0 = ?f 0" by (simp add: netBraces_def)
      then show ?thesis by (metis atLeastAtMost_iff imageI le0)
    next
      case 2
      then show ?thesis by (metis atLeastAtMost_iff imageI le0)
    qed
  qed
  show ?thesis unfolding maxRunningDepth_def
    using Max_eqI[OF fin, of "depthLoop s 0 0"] ub mem by auto
qed

lemma includes_s_sublist: "includes_s sub s = sublist sub s"
  by (induction s) (auto simp: sublist_Cons_right)

lemma includes_s_single: "includes_s [c] s \<longleftrightarrow> c \<in> set s"
  by (induction s) auto

lemma callSitePositions_Cons:
  "length (callSitePositions nm pw (c # cs))
     = (if prefix (nm @ ''('') (c # cs) \<and> \<not> pw then 1 else 0)
       + length (callSitePositions nm (isWordChar c) cs)"
proof -
  let ?P = "\<lambda>i. prefix (nm @ ''('') (drop i (c # cs))
                 \<and> \<not> (if i = 0 then pw else isWordChar ((c # cs) ! (i - 1)))"
  let ?Q = "\<lambda>i. prefix (nm @ ''('') (drop i cs)
                 \<and> \<not> (if i = 0 then isWordChar c else isWordChar (cs ! (i - 1)))"
  have upt: "[0..<length (c # cs)] = 0 # map Suc [0..<length cs]"
    by (simp add: upt_rec[of 0 "Suc (length cs)"] map_Suc_upt del: upt_Suc)
  have pq: "?P (Suc i) = ?Q i" for i
    by (cases i) simp_all
  have "(\<lambda>i. ?P (Suc i)) = ?Q" by (rule ext) (rule pq)
  then have "filter ?P (map Suc [0..<length cs]) = map Suc (filter ?Q [0..<length cs])"
    by (simp only: filter_map o_def)
  then have "length (filter ?P [0..<length (c # cs)])
               = (if ?P 0 then 1 else 0) + length (filter ?Q [0..<length cs])"
    unfolding upt by simp
  then show ?thesis by (simp add: callSitePositions_def)
qed

lemma callSitePositions_Nil: "callSitePositions nm pw [] = []"
  by (simp add: callSitePositions_def)

lemma not_word_paren: "\<not> isWordChar CHR ''(''"
  by (simp add: isWordChar_def)

lemma callSitePositions_skip:
  "list_all isWordChar w \<Longrightarrow>
     length (callSitePositions nm True (w @ CHR ''('' # rest))
       = length (callSitePositions nm False rest)"
  by (induction w) (simp_all add: callSitePositions_Cons not_word_paren)

lemma callSites_positions:
  assumes "nm \<noteq> []" and "list_all isWordChar nm"
  shows "callSites nm pw s = length (callSitePositions nm pw s)"
  using assms
proof (induction nm pw s rule: callSites.induct)
  case (1 nm pw)
  then show ?case by (simp add: callSitePositions_Nil)
next
  case (2 nm pw c cs)
  show ?case
  proof (cases "prefix (nm @ ''('') (c # cs)")
    case True
    then obtain rest where split: "c # cs = nm @ CHR ''('' # rest"
      by (auto simp: prefix_def)
    from "2.prems"(1) obtain w where nm: "nm = c # w"
      using split by (cases nm) auto
    with "2.prems"(2) have wc: "isWordChar c" and ww: "list_all isWordChar w" by simp_all
    have cs: "cs = w @ CHR ''('' # rest" using split nm by simp
    have dr: "drop (length nm) cs = rest" by (simp add: cs nm)
    show ?thesis
    proof (cases pw)
      case True
      have "callSites nm pw (c # cs) = callSites nm (isWordChar c) cs"
        using True wc by simp
      also have "\<dots> = length (callSitePositions nm (isWordChar c) cs)"
        using "2.IH"(2) "2.prems" True wc by simp
      finally show ?thesis using True by (simp add: callSitePositions_Cons)
    next
      case False
      have "callSites nm pw (c # cs) = 1 + callSites nm False rest"
        using False wc \<open>prefix (nm @ ''('') (c # cs)\<close> dr by simp
      also have "callSites nm False rest = length (callSitePositions nm False rest)"
        using "2.IH"(1) "2.prems" False wc \<open>prefix (nm @ ''('') (c # cs)\<close> dr by simp
      also have "\<dots> = length (callSitePositions nm True cs)"
        unfolding cs using callSitePositions_skip[OF ww] by simp
      finally show ?thesis
        using False wc \<open>prefix (nm @ ''('') (c # cs)\<close> by (simp add: callSitePositions_Cons)
    qed
  next
    case False
    then have "callSites nm pw (c # cs) = callSites nm (isWordChar c) cs" by simp
    also have "\<dots> = length (callSitePositions nm (isWordChar c) cs)"
      using "2.IH"(2) "2.prems" False by simp
    finally show ?thesis using False by (simp add: callSitePositions_Cons)
  qed
qed

text \<open>
  Claim C6, as the code has it. For every block whose name, when its kind is
  \<open>function\<close>, is a non-empty identifier of \<open>\w\<close> characters (as every captured name
  is), the difficulty computed by \<open>estimateDifficulty\<close>, which is the difficulty of the
  generated card, is the tier (3 from a score of 4, 2 from a score of 2, else 1) of the
  score that adds 2 for more than 20 lines or else 1 for more than 10; 2 for a maximum
  running brace depth above 4 or else 1 for one above 2, braces inside strings counted;
  1 when the code contains both angle brackets; 1 when it contains \<open>async\<close> or
  \<open>await\<close>; and 2 when the kind is \<open>function\<close> and the name followed by an opening
  parenthesis occurs at more than one identifier boundary of the whole code of the
  block, the declaration header included.
\<close>

theorem C6_difficulty:
  assumes "type_b b = Function \<longrightarrow> name b \<noteq> [] \<and> list_all isWordChar (name b)"
  shows "estimateDifficulty b = difficultyTier (specComplexity b)
       \<and> difficulty (makeCard i b) = difficultyTier (specComplexity b)"
proof -
  have calls: "type_b b = Function \<Longrightarrow>
      callSites (name b) False (code b) = length (callSitePositions (name b) False (code b))"
    using assms by (simp add: callSites_positions)
  have lt: "includes_s ''<'' (code b) \<longleftrightarrow> CHR ''<'' \<in> set (code b)"
    by (rule includes_s_single)
  have gt: "includes_s ''>'' (code b) \<longleftrightarrow> CHR ''>'' \<in> set (code b)"
    by (rule includes_s_single)
  have "complexity b = specComplexity b"
    unfolding complexity_def specComplexity_def Let_def depthLoop_max includes_s_sublist[of "''async''"]
      includes_s_sublist[of "''await''"] lt gt
    using calls by auto
  then show ?thesis
    by (simp add: estimateDifficulty_def difficultyTier_def makeCard_def)
qed

text \<open>
  Counted inside the body only, the recursive one-liner has a single call site, so the
  literal reading gives score 0 and tier 1; the code counts the header as well and
  returns tier 2.
\<close>

theorem C6_difficulty_counterexample:
  "length (callSitePositions (name blockFact) False (bodyOf (code blockFact))) = 1
   \<and> estimateDifficulty blockFact = 2
   \<and> difficultyTier (claimedComplexity blockFact) = 1"
  by code_simp

theorem C6_difficulty_witness:
  "type_b blockFact = Function \<and> name blockFact \<noteq> [] \<and> list_all isWordChar (name blockFact)
   \<and> callSites (name blockFact) False (code blockFact) = 2
   \<and> estimateDifficulty blockFact = 2
   \<and> difficultyTier (specComplexity blockFact) = 2"
proof -
  have a: "type_b blockFact = Function" by code_simp
  have b: "name blockFact \<noteq> []" by code_simp
  have c: "list_all isWordChar (name blockFact)" by code_simp
  have d: "callSites (name blockFact) False (code blockFact) = 2" by code_simp
  have e: "estimateDifficulty blockFact = 2" by code_simp
  have f: "difficultyTier (specComplexity blockFact) = 2"
    using C6_difficulty[of blockFact 0] a b c e by simp
  show ?thesis by (intro conjI, rule a, rule b, rule c, rule d, rule e, rule f)
qed

section \<open>Properties of the brace matcher\<close>

lemma not_quote_braces: "\<not> isQuote CHR ''{''" "\<not> isQuote CHR ''}''"
  by (simp_all add: isQuote_def)

lemma afterLiteral_suffix: "afterLiteral q cs = drop (litLen q cs) cs"
proof (induction q cs rule: afterLiteral.induct)
  case (1 q)
  then show ?case by (simp add: litLen_def)
next
  case (2 q c cs)
  show ?case
  proof (cases "c = q")
    case True
    then show ?thesis by (simp add: litLen_def)
  next
    case False
    show ?thesis
    proof (cases "c = CHR 0x5C")
      case True
      have le: "length (afterLiteral q (drop 1 cs)) \<le> length (drop 1 cs)"
        by (rule length_afterLiteral)
      have "afterLiteral q (c # cs) = afterLiteral q (drop 1 cs)" using True False by simp
      also have "\<dots> = drop (litLen q (drop 1 cs)) (drop 1 cs)" using "2.IH"(1) True False by simp
      also have "\<dots> = drop (litLen q (c # cs)) (c # cs)"
      proof (cases cs)
        case Nil
        then show ?thesis using True False by (simp add: litLen_def)
      next
        case (Cons x xs)
        have "litLen q (c # cs) = Suc (Suc (litLen q xs))"
          using True False Cons length_afterLiteral[of q xs] by (simp add: litLen_def)
        then show ?thesis using Cons by simp
      qed
      finally show ?thesis .
    next
      case nb: False
      have "litLen q (c # cs) = Suc (litLen q cs)"
        using False nb length_afterLiteral[of q cs] by (simp add: litLen_def)
      then show ?thesis using "2.IH"(2) False nb by simp
    qed
  qed
qed

lemma litLen_le: "litLen q cs \<le> length cs"
  by (simp add: litLen_def)

lemma afterLiteral_take:
  "afterLiteral q (take m cs)
     = (if m \<le> litLen q cs then [] else take (m - litLen q cs) (afterLiteral q cs))"
proof (induction q cs arbitrary: m rule: afterLiteral.induct)
  case (1 q)
  then show ?case by simp
next
  case (2 q c cs)
  show ?case
  proof (cases m)
    case 0
    then show ?thesis by simp
  next
    case (Suc m')
    show ?thesis
    proof (cases "c = q")
      case True
      then show ?thesis using Suc by (cases m') (simp_all add: litLen_def)
    next
      case False
      show ?thesis
      proof (cases "c = CHR 0x5C")
        case True
        show ?thesis
        proof (cases cs)
          case Nil
          then show ?thesis using True False Suc by (simp add: litLen_def)
        next
          case (Cons x xs)
          have ll: "litLen q (c # cs) = Suc (Suc (litLen q xs))"
            using True False Cons length_afterLiteral[of q xs] by (simp add: litLen_def)
          have al: "afterLiteral q (c # cs) = afterLiteral q xs" using True False Cons by simp
          show ?thesis
          proof (cases m')
            case 0
            then show ?thesis using True False Suc ll by simp
          next
            case (Suc m'')
            have "afterLiteral q (take m (c # cs)) = afterLiteral q (take m'' xs)"
              using True False Cons \<open>m = Suc m'\<close> Suc by simp
            also have "\<dots> = (if m'' \<le> litLen q xs then [] else take (m'' - litLen q xs) (afterLiteral q xs))"
              using "2.IH"(1)[of m''] True False Cons by simp
            finally show ?thesis using ll al \<open>m = Suc m'\<close> Suc by simp
          qed
        qed
      next
        case nb: False
        have ll: "litLen q (c # cs) = Suc (litLen q cs)"
          using False nb length_afterLiteral[of q cs] by (simp add: litLen_def)
        have "afterLiteral q (take m (c # cs)) = afterLiteral q (take m' cs)"
          using False nb Suc by simp
        also have "\<dots> = (if m' \<le> litLen q cs then [] else take (m' - litLen q cs) (afterLiteral q cs))"
          using "2.IH"(2)[of m'] False nb by simp
        finally show ?thesis using ll False nb Suc by simp
      qed
    qed
  qed
qed

lemma netDepth_take_Cons:
  "netDepth (take (Suc m) (c # cs)) =
     (if c = CHR ''{'' then netDepth (take m cs) + 1
      else if c = CHR ''}'' then netDepth (take m cs) - 1
      else if isQuote c
           then (if m \<le> litLen c cs then 0 else netDepth (take (m - litLen c cs) (afterLiteral c cs)))
           else netDepth (take m cs))"
  by (simp add: afterLiteral_take)

lemma prefixes_take: "set (prefixes s) = (\<lambda>m. take m s) ` {0..length s}"
proof
  show "set (prefixes s) \<subseteq> (\<lambda>m. take m s) ` {0..length s}"
  proof
    fix p assume "p \<in> set (prefixes s)"
    then have "prefix p s" by (simp add: in_set_prefixes)
    then have "p = take (length p) s" "length p \<le> length s"
      by (auto simp: prefix_def)
    then show "p \<in> (\<lambda>m. take m s) ` {0..length s}" by auto
  qed
next
  show "(\<lambda>m. take m s) ` {0..length s} \<subseteq> set (prefixes s)"
    by (auto simp: in_set_prefixes take_is_prefix)
qed

lemma exactlyBalanced_iff:
  "exactlyBalanced s =
     (netDepth s = 0
      \<and> (\<forall>m \<in> {0..length s}. 0 \<le> netDepth (take m s))
      \<and> (\<exists>m \<in> {0..length s}. 0 < netDepth (take m s)))"
  unfolding exactlyBalanced_def list_all_iff list_ex_iff prefixes_take by simp

lemma all_take_prefixes:
  "(\<forall>n. P (take n t)) \<longleftrightarrow> list_all P (prefixes t)"
proof -
  have "(\<forall>n. P (take n t)) \<longleftrightarrow> (\<forall>n \<in> {0..length t}. P (take n t))"
  proof
    assume b: "\<forall>n \<in> {0..length t}. P (take n t)"
    show "\<forall>n. P (take n t)"
    proof
      fix n
      have "take n t = take (min n (length t)) t" by (simp add: min_def)
      moreover have "P (take (min n (length t)) t)" using b by simp
      ultimately show "P (take n t)" by simp
    qed
  qed simp
  then show ?thesis unfolding list_all_iff prefixes_take by simp
qed

lemma drop_skipString:
  "drop (Suc (skipString src q j)) src = afterLiteral q (drop j src)"
proof (induction src q j rule: skipString.induct)
  case (1 source quote i)
  show ?case
  proof (cases "i < length source \<and> source ! i \<noteq> quote")
    case True
    let ?i' = "(if source ! i = CHR 0x5C then i + 1 else i) + 1"
    have step: "skipString source quote i = skipString source quote ?i'"
      using True by (subst skipString.simps) simp
    have ih: "drop (Suc (skipString source quote ?i')) source = afterLiteral quote (drop ?i' source)"
      using "1.IH" True by simp
    have dr: "drop i source = source ! i # drop (Suc i) source"
      using True by (simp add: Cons_nth_drop_Suc)
    have "afterLiteral quote (drop i source) = afterLiteral quote (drop ?i' source)"
      using True by (simp add: dr)
    with ih step show ?thesis by simp
  next
    case False
    then have k: "skipString source quote i = i" by (subst skipString.simps) auto
    show ?thesis
    proof (cases "i < length source")
      case True
      with False have "source ! i = quote" by simp
      then show ?thesis using True k by (simp add: Cons_nth_drop_Suc[symmetric])
    next
      case False
      then show ?thesis using k by simp
    qed
  qed
qed

lemma litLen_skipString:
  assumes "skipString src q j < length src"
  shows "litLen q (drop j src) = Suc (skipString src q j) - j"
proof -
  have "length (afterLiteral q (drop j src)) = length src - Suc (skipString src q j)"
    using drop_skipString[of src q j, symmetric] by simp
  then show ?thesis using assms skipString_ge[of j src q] by (simp add: litLen_def)
qed

lemma braceLoop_scanFrom:
  "braceLoop src st d f i = map_option (\<lambda>n. slice src st (i + n)) (scanFrom d f (drop i src))"
proof (induction src st d f i rule: braceLoop.induct)
  case (1 source startIdx depth foundOpen i)
  show ?case
  proof (cases "i < length source")
    case False
    then show ?thesis by (subst braceLoop.simps) simp
  next
    case il: True
    define ch where "ch = source ! i"
    define depth1 where "depth1 = (if ch = CHR ''{'' then depth + 1
                         else if ch = CHR ''}'' then depth - 1 else depth)"
    define foundOpen1 where "foundOpen1 = (if ch = CHR ''{'' then True else foundOpen)"
    define i1 where "i1 = (if isQuote ch then skipString source ch (i + 1) else i)"
    have unfold: "braceLoop source startIdx depth foundOpen i
        = (if ch = CHR ''}'' \<and> foundOpen1 \<and> depth1 = 0
           then Some (slice source startIdx (i + 1))
           else braceLoop source startIdx depth1 foundOpen1 (i1 + 1))"
      unfolding ch_def depth1_def foundOpen1_def i1_def
      by (subst braceLoop.simps) (simp only: il if_True Let_def)
    have dr: "drop i source = ch # drop (Suc i) source"
      using il by (simp add: Cons_nth_drop_Suc ch_def)
    have sunfold: "scanFrom depth foundOpen (drop i source)
        = (if ch = CHR ''}'' \<and> foundOpen1 \<and> depth1 = 0 then Some 1
           else if isQuote ch
                then map_option (\<lambda>n. n + (1 + litLen ch (drop (Suc i) source)))
                       (scanFrom depth1 foundOpen1 (afterLiteral ch (drop (Suc i) source)))
                else map_option Suc (scanFrom depth1 foundOpen1 (drop (Suc i) source)))"
      unfolding dr depth1_def foundOpen1_def by (simp add: scanFrom.simps(2) Let_def)
    show ?thesis
    proof (cases "ch = CHR ''}'' \<and> foundOpen1 \<and> depth1 = 0")
      case True
      show ?thesis by (simp only: unfold sunfold if_P[OF True]) simp
    next
      case False
      have ih: "braceLoop source startIdx depth1 foundOpen1 (i1 + 1)
                  = map_option (\<lambda>n. slice source startIdx (i1 + 1 + n))
                      (scanFrom depth1 foundOpen1 (drop (i1 + 1) source))"
        using "1.IH"[OF il ch_def depth1_def foundOpen1_def False i1_def] .
      show ?thesis
      proof (cases "isQuote ch")
        case nq: False
        then have ii: "i1 = i" by (simp add: i1_def)
        show ?thesis
          by (simp only: unfold sunfold if_not_P[OF False] if_not_P[OF nq] ih)
             (simp add: ii option.map_comp o_def)
      next
        case q: True
        then have i1s: "i1 = skipString source ch (Suc i)" by (simp add: i1_def)
        have al: "afterLiteral ch (drop (Suc i) source) = drop (i1 + 1) source"
          unfolding i1s using drop_skipString[of source ch "Suc i"] by simp
        show ?thesis
        proof (cases "i1 < length source")
          case True
          have ll: "litLen ch (drop (Suc i) source) = i1 - i"
            using litLen_skipString[of source ch "Suc i"] True i1s by simp
          have le: "i \<le> i1" using skipString_ge[of "Suc i" source ch] i1s by simp
          have ix: "Suc (i + (n + (i1 - i))) = Suc (i1 + n)" for n using le by simp
          show ?thesis
            by (simp only: unfold sunfold if_not_P[OF False] if_P[OF q] ih al)
               (simp add: ll ix option.map_comp o_def)
        next
          case False2: False
          then have em: "drop (i1 + 1) source = []" by simp
          show ?thesis
            by (simp only: unfold sunfold if_not_P[OF False] if_P[OF q] ih al em) simp
        qed
      qed
    qed
  qed
qed

lemma extractBraceBlock_scanFrom:
  "extractBraceBlock src st = map_option (\<lambda>n. take n (drop st src)) (scanFrom 0 False (drop st src))"
  by (simp add: extractBraceBlock_def braceLoop_scanFrom slice_def)

lemma scanFrom_open:
  "scanFrom d f (CHR ''{'' # cs) = map_option Suc (scanFrom (d + 1) True cs)"
  by (simp add: scanFrom.simps(2) not_quote_braces)

lemma scanFrom_close:
  "scanFrom d f (CHR ''}'' # cs)
     = (if f \<and> d = 1 then Some 1 else map_option Suc (scanFrom (d - 1) f cs))"
  by (auto simp: scanFrom.simps(2) not_quote_braces Let_def)

lemma scanFrom_quote:
  "isQuote c \<Longrightarrow>
     scanFrom d f (c # cs)
       = map_option (\<lambda>n. n + (1 + litLen c cs)) (scanFrom d f (afterLiteral c cs))"
  using not_quote_braces by (auto simp: scanFrom.simps(2))

lemma scanFrom_other:
  "c \<noteq> CHR ''{'' \<Longrightarrow> c \<noteq> CHR ''}'' \<Longrightarrow> \<not> isQuote c \<Longrightarrow>
     scanFrom d f (c # cs) = map_option Suc (scanFrom d f cs)"
  by (simp add: scanFrom.simps(2))

lemma length_afterLiteral_litLen: "length (afterLiteral q cs) + litLen q cs = length cs"
  using length_afterLiteral[of q cs] by (simp add: litLen_def)

lemma scanFrom_bounds:
  "scanFrom d f r = Some n \<Longrightarrow>
     1 \<le> n \<and> n \<le> length r \<and> r ! (n - 1) = CHR ''}'' \<and> d + netDepth (take n r) = 0"
proof (induction r arbitrary: d f n rule: netDepth.induct)
  case 1
  then show ?case by simp
next
  case (2 c cs)
  consider (op) "c = CHR ''{''" | (cl) "c = CHR ''}''" | (qu) "isQuote c"
    | (ot) "c \<noteq> CHR ''{''" "c \<noteq> CHR ''}''" "\<not> isQuote c"
    by blast
  then show ?case
  proof cases
    case op
    from "2.prems" obtain n' where n': "scanFrom (d + 1) True cs = Some n'" "n = Suc n'"
      by (auto simp: op scanFrom_open)
    from "2.IH"(1)[OF op n'(1)] show ?thesis
      using n'(2) op by (cases n') (simp_all add: netDepth_take_Cons)
  next
    case cl
    show ?thesis
    proof (cases "f \<and> d = 1")
      case True
      with "2.prems" have "n = 1" by (simp add: cl scanFrom_close)
      then show ?thesis using True cl by simp
    next
      case False
      with "2.prems" obtain n' where n': "scanFrom (d - 1) f cs = Some n'" "n = Suc n'"
        by (auto simp: cl scanFrom_close)
      have ne: "c \<noteq> CHR ''{''" using cl by simp
      from "2.IH"(2)[OF ne cl n'(1)] show ?thesis
        using n'(2) cl by (cases n') (simp_all add: netDepth_take_Cons)
    qed
  next
    case qu
    have ne: "c \<noteq> CHR ''{''" "c \<noteq> CHR ''}''" using qu not_quote_braces by auto
    from "2.prems" obtain n' where n': "scanFrom d f (afterLiteral c cs) = Some n'"
        "n = n' + (1 + litLen c cs)"
      by (auto simp: scanFrom_quote[OF qu])
    from "2.IH"(3)[OF ne qu n'(1)]
    have ih: "1 \<le> n'" "n' \<le> length (afterLiteral c cs)"
        "afterLiteral c cs ! (n' - 1) = CHR ''}''" "d + netDepth (take n' (afterLiteral c cs)) = 0"
      by simp_all
    have len: "n \<le> length (c # cs)"
      using ih(2) n'(2) length_afterLiteral_litLen[of c cs] by simp
    have nth: "(c # cs) ! (n - 1) = CHR ''}''"
    proof -
      have "n - 1 = Suc (litLen c cs + (n' - 1))" using n'(2) ih(1) by simp
      then have "(c # cs) ! (n - 1) = cs ! (litLen c cs + (n' - 1))"
        by (simp only: nth_Cons_Suc)
      also have "\<dots> = afterLiteral c cs ! (n' - 1)"
        using ih(1,2) length_afterLiteral_litLen[of c cs]
        by (simp add: afterLiteral_suffix[of c cs])
      finally show ?thesis using ih(3) by simp
    qed
    have "netDepth (take n (c # cs)) = netDepth (take n' (afterLiteral c cs))"
    proof -
      have "n = Suc (n' + litLen c cs)" using n'(2) by simp
      then show ?thesis using qu ne ih(1) by (simp add: afterLiteral_take)
    qed
    then show ?thesis using ih len nth n'(2) by simp
  next
    case ot
    from "2.prems" obtain n' where n': "scanFrom d f cs = Some n'" "n = Suc n'"
      by (auto simp: scanFrom_other[OF ot])
    from "2.IH"(4)[OF ot n'(1)] show ?thesis
      using n'(2) ot by (cases n') (simp_all add: netDepth_take_Cons)
  qed
qed

lemma scanFrom_inside:
  "1 \<le> d \<Longrightarrow> scanFrom d True r = Some n \<Longrightarrow> m < n \<Longrightarrow> 1 \<le> d + netDepth (take m r)"
proof (induction r arbitrary: d n m rule: netDepth.induct)
  case 1
  then show ?case by simp
next
  case (2 c cs)
  show ?case
  proof (cases m)
    case 0
    then show ?thesis using "2.prems"(1) by simp
  next
    case (Suc m')
    consider (op) "c = CHR ''{''" | (cl) "c = CHR ''}''" | (qu) "isQuote c"
      | (ot) "c \<noteq> CHR ''{''" "c \<noteq> CHR ''}''" "\<not> isQuote c"
      by blast
    then show ?thesis
    proof cases
      case op
      from "2.prems"(2) obtain n' where n': "scanFrom (d + 1) True cs = Some n'" "n = Suc n'"
        by (auto simp: op scanFrom_open)
      have "1 \<le> d + 1 + netDepth (take m' cs)"
        using "2.IH"(1)[OF op _ n'(1), of m'] "2.prems"(1,3) n'(2) Suc by simp
      then show ?thesis using Suc op by simp
    next
      case cl
      show ?thesis
      proof (cases "d = 1")
        case True
        with "2.prems"(2) have "n = 1" by (simp add: cl scanFrom_close)
        with "2.prems"(3) Suc show ?thesis by simp
      next
        case False
        with "2.prems"(2) obtain n' where n': "scanFrom (d - 1) True cs = Some n'" "n = Suc n'"
          by (auto simp: cl scanFrom_close)
        have ne: "c \<noteq> CHR ''{''" using cl by simp
        have "1 \<le> d - 1" using False "2.prems"(1) by simp
        from "2.IH"(2)[OF ne cl this n'(1), of m'] "2.prems"(3) n'(2) Suc
        have "1 \<le> d - 1 + netDepth (take m' cs)" by simp
        then show ?thesis using Suc cl by simp
      qed
    next
      case qu
      have ne: "c \<noteq> CHR ''{''" "c \<noteq> CHR ''}''" using qu not_quote_braces by auto
      from "2.prems"(2) obtain n' where n': "scanFrom d True (afterLiteral c cs) = Some n'"
          "n = n' + (1 + litLen c cs)"
        by (auto simp: scanFrom_quote[OF qu])
      show ?thesis
      proof (cases "m' \<le> litLen c cs")
        case True
        then show ?thesis using Suc qu ne "2.prems"(1) by (simp add: afterLiteral_take)
      next
        case False
        then have "m' - litLen c cs < n'" using "2.prems"(3) n'(2) Suc by simp
        from "2.IH"(3)[OF ne qu "2.prems"(1) n'(1) this]
        show ?thesis using Suc qu ne False by (simp add: afterLiteral_take)
      qed
    next
      case ot
      from "2.prems"(2) obtain n' where n': "scanFrom d True cs = Some n'" "n = Suc n'"
        by (auto simp: scanFrom_other[OF ot])
      from "2.IH"(4)[OF ot "2.prems"(1) n'(1), of m'] "2.prems"(3) n'(2) Suc
      show ?thesis using ot by simp
    qed
  qed
qed

lemma scanFrom_phases:
  "noEarlyCloser r \<Longrightarrow> scanFrom 0 False r = Some n \<Longrightarrow>
     \<exists>p. p + 1 < n \<and> (\<forall>m \<le> p. netDepth (take m r) = 0)
         \<and> (\<forall>m. p < m \<and> m < n \<longrightarrow> 1 \<le> netDepth (take m r))"
proof (induction r arbitrary: n rule: netDepth.induct)
  case 1
  then show ?case by simp
next
  case (2 c cs)
  consider (op) "c = CHR ''{''" | (cl) "c = CHR ''}''" | (qu) "isQuote c"
    | (ot) "c \<noteq> CHR ''{''" "c \<noteq> CHR ''}''" "\<not> isQuote c"
    by blast
  then show ?case
  proof cases
    case op
    from "2.prems"(2) obtain n' where n': "scanFrom 1 True cs = Some n'" "n = Suc n'"
      by (auto simp: op scanFrom_open)
    have n1: "1 \<le> n'" using scanFrom_bounds[OF n'(1)] by simp
    have inside: "1 \<le> netDepth (take m (c # cs))" if "0 < m" "m < n" for m
    proof -
      from that obtain m' where m': "m = Suc m'" "m' < n'" using n'(2) by (cases m) auto
      from scanFrom_inside[OF _ n'(1) m'(2)] have "1 \<le> 1 + netDepth (take m' cs)" by simp
      then show ?thesis using m'(1) op by simp
    qed
    show ?thesis
      using n1 n'(2) inside by (intro exI[of _ 0]) auto
  next
    case cl
    with "2.prems"(1) show ?thesis by simp
  next
    case qu
    have ne: "c \<noteq> CHR ''{''" "c \<noteq> CHR ''}''" using qu not_quote_braces by auto
    from "2.prems"(2) obtain n' where n': "scanFrom 0 False (afterLiteral c cs) = Some n'"
        "n = n' + (1 + litLen c cs)"
      by (auto simp: scanFrom_quote[OF qu])
    have ne': "noEarlyCloser (afterLiteral c cs)" using "2.prems"(1) qu ne by simp
    from "2.IH"(3)[OF ne qu ne' n'(1)] obtain p where p: "p + 1 < n'"
        "\<forall>m \<le> p. netDepth (take m (afterLiteral c cs)) = 0"
        "\<forall>m. p < m \<and> m < n' \<longrightarrow> 1 \<le> netDepth (take m (afterLiteral c cs))"
      by blast
    let ?p = "p + (1 + litLen c cs)"
    have a: "?p + 1 < n" using p(1) n'(2) by simp
    have b: "netDepth (take m (c # cs)) = 0" if "m \<le> ?p" for m
    proof (cases m)
      case 0
      then show ?thesis by simp
    next
      case (Suc m')
      show ?thesis
      proof (cases "m' \<le> litLen c cs")
        case True
        then show ?thesis using Suc qu ne by (simp add: afterLiteral_take)
      next
        case False
        then have "m' - litLen c cs \<le> p" using that Suc by simp
        with p(2) have "netDepth (take (m' - litLen c cs) (afterLiteral c cs)) = 0" by blast
        then show ?thesis using Suc qu ne False by (simp add: afterLiteral_take)
      qed
    qed
    have c: "1 \<le> netDepth (take m (c # cs))" if "?p < m" "m < n" for m
    proof -
      from that obtain m' where m': "m = Suc m'" by (cases m) auto
      have gt: "\<not> m' \<le> litLen c cs" using that(1) m' by simp
      have "p < m' - litLen c cs \<and> m' - litLen c cs < n'" using that m' n'(2) by auto
      with p(3) have "1 \<le> netDepth (take (m' - litLen c cs) (afterLiteral c cs))" by blast
      then show ?thesis using m' qu ne gt by (simp add: afterLiteral_take)
    qed
    show ?thesis using a b c by (intro exI[of _ ?p]) blast
  next
    case ot
    from "2.prems"(2) obtain n' where n': "scanFrom 0 False cs = Some n'" "n = Suc n'"
      by (auto simp: scanFrom_other[OF ot])
    have ne': "noEarlyCloser cs" using "2.prems"(1) ot by simp
    from "2.IH"(4)[OF ot ne' n'(1)] obtain p where p: "p + 1 < n'"
        "\<forall>m \<le> p. netDepth (take m cs) = 0"
        "\<forall>m. p < m \<and> m < n' \<longrightarrow> 1 \<le> netDepth (take m cs)"
      by blast
    have b: "netDepth (take m (c # cs)) = 0" if "m \<le> Suc p" for m
      using that p(2) ot by (cases m) simp_all
    have c: "1 \<le> netDepth (take m (c # cs))" if "Suc p < m" "m < n" for m
    proof -
      from that obtain m' where m': "m = Suc m'" by (cases m) auto
      then have "p < m' \<and> m' < n'" using that n'(2) by simp
      with p(3) have "1 \<le> netDepth (take m' cs)" by blast
      then show ?thesis using m' ot by simp
    qed
    show ?thesis using p(1) n'(2) b c by (intro exI[of _ "Suc p"]) auto
  qed
qed

lemma scanFrom_complete_inside:
  "1 \<le> d \<Longrightarrow> d + netDepth (take m r) \<le> 0 \<Longrightarrow> scanFrom d True r \<noteq> None"
proof (induction r arbitrary: d m rule: netDepth.induct)
  case 1
  then show ?case by simp
next
  case (2 c cs)
  from "2.prems" obtain m' where m: "m = Suc m'" by (cases m) auto
  consider (op) "c = CHR ''{''" | (cl) "c = CHR ''}''" | (qu) "isQuote c"
    | (ot) "c \<noteq> CHR ''{''" "c \<noteq> CHR ''}''" "\<not> isQuote c"
    by blast
  then show ?case
  proof cases
    case op
    have "d + 1 + netDepth (take m' cs) \<le> 0" using "2.prems"(2) m op by simp
    from "2.IH"(1)[OF op _ this] "2.prems"(1) show ?thesis by (simp add: op scanFrom_open)
  next
    case cl
    show ?thesis
    proof (cases "d = 1")
      case True
      then show ?thesis by (simp add: cl scanFrom_close)
    next
      case False
      have ne: "c \<noteq> CHR ''{''" using cl by simp
      have d1: "1 \<le> d - 1" using False "2.prems"(1) by simp
      have "d - 1 + netDepth (take m' cs) \<le> 0" using "2.prems"(2) m cl by simp
      from "2.IH"(2)[OF ne cl d1 this] False show ?thesis by (simp add: cl scanFrom_close)
    qed
  next
    case qu
    have ne: "c \<noteq> CHR ''{''" "c \<noteq> CHR ''}''" using qu not_quote_braces by auto
    have gt: "\<not> m' \<le> litLen c cs"
    proof
      assume "m' \<le> litLen c cs"
      then have "netDepth (take m (c # cs)) = 0" using m qu ne by (simp add: afterLiteral_take)
      with "2.prems" show False by simp
    qed
    then have "d + netDepth (take (m' - litLen c cs) (afterLiteral c cs)) \<le> 0"
      using "2.prems"(2) m qu ne by (simp add: afterLiteral_take)
    from "2.IH"(3)[OF ne qu "2.prems"(1) this] show ?thesis by (simp add: scanFrom_quote[OF qu])
  next
    case ot
    have "d + netDepth (take m' cs) \<le> 0" using "2.prems"(2) m ot by simp
    from "2.IH"(4)[OF ot "2.prems"(1) this] show ?thesis by (simp add: scanFrom_other[OF ot])
  qed
qed

lemma scanFrom_complete:
  "netDepth (take n r) = 0 \<Longrightarrow> \<forall>m \<le> n. 0 \<le> netDepth (take m r) \<Longrightarrow>
     k \<le> n \<Longrightarrow> 0 < netDepth (take k r) \<Longrightarrow> scanFrom 0 False r \<noteq> None"
proof (induction r arbitrary: n k rule: netDepth.induct)
  case 1
  then show ?case by simp
next
  case (2 c cs)
  from "2.prems"(4) obtain k' where k: "k = Suc k'" by (cases k) auto
  with "2.prems"(3) obtain n' where n: "n = Suc n'" "k' \<le> n'" by (cases n) auto
  consider (op) "c = CHR ''{''" | (cl) "c = CHR ''}''" | (qu) "isQuote c"
    | (ot) "c \<noteq> CHR ''{''" "c \<noteq> CHR ''}''" "\<not> isQuote c"
    by blast
  then show ?case
  proof cases
    case op
    have "1 + netDepth (take n' cs) \<le> 0" using "2.prems"(1) n op by simp
    from scanFrom_complete_inside[OF _ this] show ?thesis by (simp add: op scanFrom_open)
  next
    case cl
    have "netDepth (take 1 (c # cs)) = - 1" using cl by simp
    moreover have "1 \<le> n" using n by simp
    ultimately show ?thesis using "2.prems"(2) by fastforce
  next
    case qu
    have ne: "c \<noteq> CHR ''{''" "c \<noteq> CHR ''}''" using qu not_quote_braces by auto
    let ?L = "litLen c cs"
    have eq: "netDepth (take (Suc j) (c # cs))
                = (if j \<le> ?L then 0 else netDepth (take (j - ?L) (afterLiteral c cs)))" for j
      using qu ne by (simp add: afterLiteral_take)
    have kgt: "\<not> k' \<le> ?L" using "2.prems"(4) k eq[of k'] by auto
    then have ngt: "\<not> n' \<le> ?L" using n(2) by simp
    have a: "netDepth (take (n' - ?L) (afterLiteral c cs)) = 0"
      using "2.prems"(1) n eq[of n'] ngt by simp
    have b: "\<forall>m \<le> n' - ?L. 0 \<le> netDepth (take m (afterLiteral c cs))"
    proof (intro allI impI)
      fix m assume m: "m \<le> n' - ?L"
      show "0 \<le> netDepth (take m (afterLiteral c cs))"
      proof (cases m)
        case 0
        then show ?thesis by simp
      next
        case (Suc m0)
        have "Suc (m + ?L) \<le> n" using m n ngt by simp
        with "2.prems"(2) have "0 \<le> netDepth (take (Suc (m + ?L)) (c # cs))" by blast
        then show ?thesis using eq[of "m + ?L"] Suc by simp
      qed
    qed
    have c: "k' - ?L \<le> n' - ?L" using n(2) by simp
    have d: "0 < netDepth (take (k' - ?L) (afterLiteral c cs))"
      using "2.prems"(4) k eq[of k'] kgt by simp
    from "2.IH"(3)[OF ne qu a b c d] show ?thesis by (simp add: scanFrom_quote[OF qu])
  next
    case ot
    have a: "netDepth (take n' cs) = 0" using "2.prems"(1) n ot by simp
    have b: "\<forall>m \<le> n'. 0 \<le> netDepth (take m cs)"
    proof (intro allI impI)
      fix m assume "m \<le> n'"
      then have "Suc m \<le> n" using n by simp
      with "2.prems"(2) have "0 \<le> netDepth (take (Suc m) (c # cs))" by blast
      then show "0 \<le> netDepth (take m cs)" using ot by simp
    qed
    have d: "0 < netDepth (take k' cs)" using "2.prems"(4) k ot by simp
    from "2.IH"(4)[OF ot a b n(2) d] show ?thesis by (simp add: scanFrom_other[OF ot])
  qed
qed

lemma exactlyBalanced_take:
  assumes "n \<le> length r"
  shows "exactlyBalanced (take n r) \<longleftrightarrow>
           netDepth (take n r) = 0 \<and> (\<forall>m \<le> n. 0 \<le> netDepth (take m r))
           \<and> (\<exists>m \<le> n. 0 < netDepth (take m r))"
proof -
  have len: "length (take n r) = n" using assms by simp
  have tk: "take m (take n r) = take m r" if "m \<le> n" for m
    using that by (simp add: min_def)
  show ?thesis
    unfolding exactlyBalanced_iff len
    by (auto simp: tk)
qed

lemma scanFrom_balanced:
  assumes h: "noEarlyCloser r" and sc: "scanFrom 0 False r = Some n"
  shows "exactlyBalanced (take n r)" and "\<forall>m < n. \<not> exactlyBalanced (take m r)"
proof -
  from scanFrom_bounds[OF sc] have b: "1 \<le> n" "n \<le> length r" "netDepth (take n r) = 0"
    by simp_all
  from scanFrom_phases[OF h sc] obtain p where p: "p + 1 < n"
      "\<forall>m \<le> p. netDepth (take m r) = 0"
      "\<forall>m. p < m \<and> m < n \<longrightarrow> 1 \<le> netDepth (take m r)"
    by blast
  have nonneg: "0 \<le> netDepth (take m r)" if mn: "m \<le> n" for m
  proof -
    consider "m \<le> p" | "p < m \<and> m < n" | "m = n" using mn by linarith
    then show ?thesis
    proof cases
      case 1
      with p(2) show ?thesis by simp
    next
      case 2
      with p(3) have "1 \<le> netDepth (take m r)" by blast
      then show ?thesis by simp
    next
      case 3
      with b(3) show ?thesis by simp
    qed
  qed
  have pos: "0 < netDepth (take (p + 1) r)"
  proof -
    have "1 \<le> netDepth (take (p + 1) r)" using p(1,3) by simp
    then show ?thesis by simp
  qed
  show "exactlyBalanced (take n r)"
    unfolding exactlyBalanced_take[OF b(2)]
    using b(3) nonneg pos p(1) by (intro conjI allI impI exI[of _ "p + 1"]) simp_all
  show "\<forall>m < n. \<not> exactlyBalanced (take m r)"
  proof (intro allI impI notI)
    fix m assume m: "m < n" and bal: "exactlyBalanced (take m r)"
    have ml: "m \<le> length r" using m b(2) by simp
    from bal[unfolded exactlyBalanced_take[OF ml]]
    obtain k where z: "netDepth (take m r) = 0" and k: "k \<le> m" "0 < netDepth (take k r)"
      by blast
    have "m \<le> p"
    proof (rule ccontr)
      assume "\<not> m \<le> p"
      then have "1 \<le> netDepth (take m r)" using p(3) m by simp
      with z show False by simp
    qed
    then have "netDepth (take k r) = 0" using p(2) k(1) by simp
    with k(2) show False by simp
  qed
qed

lemma scanFrom_exists:
  assumes "exactlyBalanced (take n r)"
  shows "scanFrom 0 False r \<noteq> None"
proof -
  let ?n = "min n (length r)"
  have tk: "take n r = take ?n r" by (simp add: min_def)
  have "exactlyBalanced (take ?n r)" using assms tk by simp
  then obtain k where "netDepth (take ?n r) = 0" "\<forall>m \<le> ?n. 0 \<le> netDepth (take m r)"
      "k \<le> ?n" "0 < netDepth (take k r)"
    unfolding exactlyBalanced_take[of ?n r, OF min.cobounded2] by blast
  then show ?thesis by (rule scanFrom_complete)
qed

text \<open>
  Claim C4, as the code has it. When \<open>extractBraceBlock\<close> returns a text, that text is the
  part of the source that starts at the given offset itself (not at the first opening
  brace) and ends with a closing brace. When, outside literals, no closing brace stands
  before the first opening brace after the offset, the returned text is exactly balanced,
  and no shorter text from the offset is: depth is counted outside string, character and
  template literals, never falls below zero, and returns to zero only at the end. A text
  is returned whenever some text from the offset is exactly balanced. When none is, and
  no closing brace stands before the first opening brace, the result is \<open>null\<close>; so it is
  for the unbalanced text \<open>function f() { return 1;\<close>.
\<close>

theorem C4_brace_block:
  "(extractBraceBlock source startIdx = Some s \<longrightarrow>
      (\<exists>n. 1 \<le> n \<and> startIdx + n \<le> length source
           \<and> s = slice source startIdx (startIdx + n))
      \<and> last s = CHR ''}'')
   \<and> (noEarlyCloser (drop startIdx source) \<longrightarrow> extractBraceBlock source startIdx = Some s \<longrightarrow>
        exactlyBalanced s \<and> (\<forall>m < length s. \<not> exactlyBalanced (take m s)))
   \<and> ((\<exists>n. exactlyBalanced (take n (drop startIdx source))) \<longrightarrow>
        extractBraceBlock source startIdx \<noteq> None)
   \<and> (noEarlyCloser (drop startIdx source) \<longrightarrow>
        (\<forall>n. \<not> exactlyBalanced (take n (drop startIdx source))) \<longrightarrow>
        extractBraceBlock source startIdx = None)
   \<and> extractBraceBlock ''function f() { return 1;'' 0 = None"
proof -
  let ?r = "drop startIdx source"
  have some: "\<exists>n. scanFrom 0 False ?r = Some n \<and> s = take n ?r"
    if "extractBraceBlock source startIdx = Some s" for s
    using that by (auto simp: extractBraceBlock_scanFrom)
  have a: "extractBraceBlock source startIdx = Some s \<longrightarrow>
      (\<exists>n. 1 \<le> n \<and> startIdx + n \<le> length source
           \<and> s = slice source startIdx (startIdx + n))
      \<and> last s = CHR ''}''"
  proof
    assume "extractBraceBlock source startIdx = Some s"
    from some[OF this] obtain n where n: "scanFrom 0 False ?r = Some n" "s = take n ?r" by blast
    from scanFrom_bounds[OF n(1)] have b: "1 \<le> n" "n \<le> length ?r" "?r ! (n - 1) = CHR ''}''"
      by simp_all
    have "startIdx + n \<le> length source" using b(1,2) by simp
    moreover have "s = slice source startIdx (startIdx + n)" using n(2) by (simp add: slice_def)
    moreover have "last s = CHR ''}''"
    proof -
      have "s \<noteq> []" using n(2) b(1,2) by auto
      then have "last s = s ! (length s - 1)" by (rule last_conv_nth)
      also have "\<dots> = ?r ! (n - 1)" using n(2) b(1,2) by simp
      finally show ?thesis using b(3) by simp
    qed
    ultimately show "(\<exists>n. 1 \<le> n \<and> startIdx + n \<le> length source
           \<and> s = slice source startIdx (startIdx + n)) \<and> last s = CHR ''}''"
      using b(1) by blast
  qed
  have b: "exactlyBalanced s \<and> (\<forall>m < length s. \<not> exactlyBalanced (take m s))"
    if h: "noEarlyCloser ?r" and r: "extractBraceBlock source startIdx = Some s" for s
  proof -
    from some[OF r] obtain n where n: "scanFrom 0 False ?r = Some n" "s = take n ?r" by blast
    from scanFrom_bounds[OF n(1)] have nl: "n \<le> length ?r" by simp
    then have len: "length s = n" using n(2) by simp
    have tk: "take m s = take m ?r" if "m < n" for m using that n(2) by (simp add: min_def)
    from scanFrom_balanced[OF h n(1)] show ?thesis
      using n(2) len tk by simp
  qed
  have c: "(\<exists>n. exactlyBalanced (take n ?r)) \<longrightarrow> extractBraceBlock source startIdx \<noteq> None"
    using scanFrom_exists[of _ ?r] by (auto simp: extractBraceBlock_scanFrom)
  have d: "noEarlyCloser ?r \<longrightarrow> (\<forall>n. \<not> exactlyBalanced (take n ?r)) \<longrightarrow>
             extractBraceBlock source startIdx = None"
  proof (intro impI)
    assume h: "noEarlyCloser ?r" and no: "\<forall>n. \<not> exactlyBalanced (take n ?r)"
    show "extractBraceBlock source startIdx = None"
    proof (cases "extractBraceBlock source startIdx")
      case None
      then show ?thesis .
    next
      case (Some s')
      from some[OF Some] obtain n where "s' = take n ?r" by blast
      with b[OF h Some] no show ?thesis by blast
    qed
  qed
  have e: "extractBraceBlock ''function f() { return 1;'' 0 = None" by code_simp
  show ?thesis using a b c d e by blast
qed

text \<open>
  The returned text starts at the offset, which need not be an opening brace: from
  offset 0 of \<open>f() {}\<close> the whole text is returned, and it starts with \<open>f\<close>.
\<close>

theorem C4_brace_block_counterexample:
  "extractBraceBlock ''f() {}'' 0 = Some ''f() {}'' \<and> hd ''f() {}'' \<noteq> CHR ''{''"
  by code_simp

text \<open>
  The condition on closing braces is needed: a closing brace that stands before the
  first opening brace lowers the depth below zero, and the loop then returns where the
  depth comes back to zero, with a text that is not balanced.
\<close>

lemma extractBraceBlock_early_closer:
  "extractBraceBlock ''} {{ }'' 0 = Some ''} {{ }'' \<and> \<not> exactlyBalanced ''} {{ }''
   \<and> \<not> noEarlyCloser ''} {{ }''"
  by code_simp

theorem C4_brace_block_witness:
  "extractBraceBlock ''x = { a: 1 } + y'' 4 = Some ''{ a: 1 }''
   \<and> noEarlyCloser (drop 4 ''x = { a: 1 } + y'')
   \<and> exactlyBalanced ''{ a: 1 }''
   \<and> exactlyBalanced (take 8 (drop 4 ''x = { a: 1 } + y''))
   \<and> extractBraceBlock ''x = { a: 1 } + y'' 4 \<noteq> None
   \<and> noEarlyCloser (drop 0 ''f() { g('')
   \<and> (\<forall>n. \<not> exactlyBalanced (take n (drop 0 ''f() { g('')))
   \<and> extractBraceBlock ''f() { g('' 0 = None"
proof -
  have a: "extractBraceBlock ''x = { a: 1 } + y'' 4 = Some ''{ a: 1 }''" by code_simp
  have h: "noEarlyCloser (drop 4 ''x = { a: 1 } + y'')" by code_simp
  have b: "exactlyBalanced ''{ a: 1 }''"
    using C4_brace_block[of "''x = { a: 1 } + y''" 4 "''{ a: 1 }''", THEN conjunct2, THEN conjunct1,
            THEN mp, OF h, THEN mp, OF a]
    by (rule conjunct1)
  have t: "take 8 (drop 4 ''x = { a: 1 } + y'') = ''{ a: 1 }''" by simp
  have b': "exactlyBalanced (take 8 (drop 4 ''x = { a: 1 } + y''))" by (simp only: t b)
  have ex: "\<exists>n. exactlyBalanced (take n (drop 4 ''x = { a: 1 } + y''))"
    by (rule exI[of _ 8], rule b')
  have c: "extractBraceBlock ''x = { a: 1 } + y'' 4 \<noteq> None"
    by (rule C4_brace_block[of "''x = { a: 1 } + y''" 4 "[]", THEN conjunct2, THEN conjunct2,
          THEN conjunct1, THEN mp, OF ex])
  have h2: "noEarlyCloser (drop 0 ''f() { g('')" by code_simp
  have d0: "drop 0 ''f() { g('' = ''f() { g(''" by simp
  have la: "list_all (\<lambda>p. \<not> exactlyBalanced p) (prefixes ''f() { g('')" by code_simp
  have no: "\<forall>n. \<not> exactlyBalanced (take n (drop 0 ''f() { g(''))"
    unfolding d0
    by (rule iffD2[OF all_take_prefixes[of "\<lambda>p. \<not> exactlyBalanced p" "''f() { g(''"] la])
  have none: "extractBraceBlock ''f() { g('' 0 = None"
    by (rule C4_brace_block[of "''f() { g(''" 0 "[]", THEN conjunct2, THEN conjunct2, THEN conjunct2,
          THEN conjunct1, THEN mp, OF h2, THEN mp, OF no])
  show ?thesis
    by (intro conjI, rule a, rule h, rule b, rule b', rule c, rule h2, rule no, rule none)
qed

end
